theory Spec2Isabelle
  imports Complex_Main "HOL-Library.Multiset"
begin

section \<open>Persistence store\<close>

text \<open>
  The four tables of the migrations are lists of rows. Only the columns that the
  application code reads or writes are kept: the surrogate \<open>id\<close> and \<open>created_at\<close> of
  \<open>ai_feedback\<close> and \<open>votes\<close>, and \<open>updated_at\<close>, are never looked at by the code modelled
  here. Timestamps are milliseconds since the epoch.
\<close>

type_synonym uuid = string
type_synonym timestamptz = nat

text \<open>The text a user types is a JavaScript string: a sequence of UTF-16 code units.\<close>

type_synonym js_string = "nat list"

definition utf16 :: "string \<Rightarrow> js_string" where
  "utf16 = map of_char"

datatype pitch_status = draft | published

datatype ai_status = pending | processing | completed | failed

datatype vote_type = interesting | needs_work

record pitch_row =
  p_id :: uuid
  p_user_id :: uuid
  p_title :: js_string
  p_target_audience :: js_string
  p_pain_point :: js_string
  p_product_description :: js_string
  p_elevator_pitch :: js_string
  p_status :: pitch_status
  p_ai_processing_status :: ai_status
  p_ai_processing_started_at :: "timestamptz option"
  p_ai_processing_completed_at :: "timestamptz option"
  p_ai_processing_error :: "string option"
  p_created_at :: timestamptz

text \<open>The object the model is asked for, and that the mock replaces.\<close>

record feedback =
  strengths :: "string list"
  weaknesses :: "string list"
  recommendations :: "string list"
  overall_score :: int

record feedback_row =
  f_pitch_id :: uuid
  f_feedback :: feedback

record vote_row =
  v_pitch_id :: uuid
  v_user_id :: uuid
  v_vote_type :: vote_type

record store =
  pitches :: "pitch_row list"
  ai_feedback :: "feedback_row list"
  votes :: "vote_row list"

text \<open>What the database answers when it refuses a row.\<close>

datatype db_error = check_violation | unique_violation | foreign_key_violation | policy_violation

text \<open>\<open>UPDATE pitches SET ... WHERE id = pid\<close>: every matching row is changed, no row is an
  update of nothing.\<close>

definition update_pitch :: "uuid \<Rightarrow> (pitch_row \<Rightarrow> pitch_row) \<Rightarrow> store \<Rightarrow> store" where
  "update_pitch pid f s =
     s\<lparr>pitches := map (\<lambda>p. if p_id p = pid then f p else p) (pitches s)\<rparr>"

text \<open>\<open>.select('*').eq('id', pid).single()\<close>: an error unless exactly one row matches.\<close>

definition select_single :: "uuid \<Rightarrow> store \<Rightarrow> pitch_row option" where
  "select_single pid s =
     (case filter (\<lambda>p. p_id p = pid) (pitches s) of
        [p] \<Rightarrow> Some p
      | _ \<Rightarrow> None)"

text \<open>\<open>INSERT INTO ai_feedback\<close> by the service role (no row policy applies): the check on
  \<open>overall_score\<close>, \<open>UNIQUE(pitch_id)\<close> and the foreign key to \<open>pitches\<close>.\<close>

definition insert_feedback :: "feedback_row \<Rightarrow> store \<Rightarrow> db_error + store" where
  "insert_feedback r s =
     (if \<not> (1 \<le> overall_score (f_feedback r) \<and> overall_score (f_feedback r) \<le> 10)
        then Inl check_violation
      else if f_pitch_id r \<in> set (map f_pitch_id (ai_feedback s))
        then Inl unique_violation
      else if f_pitch_id r \<notin> set (map p_id (pitches s))
        then Inl foreign_key_violation
      else Inr (s\<lparr>ai_feedback := ai_feedback s @ [r]\<rparr>))"

section \<open>Feedback generation endpoint\<close>

text \<open>The body of a request as the handler reads it: \<open>req.json()\<close> or the read of
  \<open>body.pitch_id\<close> throws (no body, a text that is not JSON, the JSON value \<open>null\<close>),
  with the message of the error; or the body is read and \<open>pitch_id\<close> is absent (or
  another value that counts as false) or a string.\<close>

datatype req_body =
    Unparsable string
  | Json "uuid option"

record request =
  req_method :: string
  req_body :: req_body

datatype resp_body =
    NoBody
  | ErrorBody string
  | SuccessBody feedback

record response =
  r_status :: nat
  r_body :: resp_body

text \<open>What the call to the model's API comes to: \<open>fetch\<close> throws, the answer is not ok
  (status and text), the answer cannot be read as the JSON asked for (the message of the
  error thrown), or a feedback object of the shape asked for.\<close>

datatype openai_outcome =
    FetchThrows string
  | NotOk nat string
  | Malformed string
  | Parsed feedback

text \<open>The environment of one invocation: the configured key, what the API will answer,
  the message the database client gives for an error, and the clock read when processing
  starts and when it ends.\<close>

record env =
  OPENAI_API_KEY :: "string option"
  openai :: openai_outcome
  db_message :: "db_error \<Rightarrow> string"
  started_now :: timestamptz
  completed_now :: timestamptz

text \<open>A number in a template literal: its decimal digits.\<close>

fun digit_chars :: "nat \<Rightarrow> string" where
  "digit_chars n =
     (if n < 10 then [''0123456789'' ! n]
      else digit_chars (n div 10) @ [''0123456789'' ! (n mod 10)])"

declare digit_chars.simps [simp del]

definition mockFeedback :: feedback where
  "mockFeedback =
     \<lparr>strengths =
        [''Clear problem identification and target audience definition'',
         ''Well-articulated value proposition'',
         ''Demonstrates understanding of market need''],
      weaknesses =
        [''Could benefit from more specific metrics and data'',
         ''Competitive landscape analysis is limited'',
         ''Monetization strategy could be more detailed''],
      recommendations =
        [''Include market size data and growth projections'',
         ''Add more details about competitive advantages'',
         ''Clarify go-to-market strategy and customer acquisition plan''],
      overall_score = 7\<rparr>"

text \<open>\<open>error.message || 'Failed to generate feedback'\<close>.\<close>

definition message_or_default :: "string \<Rightarrow> string" where
  "message_or_default m = (if m = [] then ''Failed to generate feedback'' else m)"

text \<open>The \<open>catch\<close> block: with a pitch id in hand the failure is written to the pitch,
  and the caller gets status 500 with the message.\<close>

definition catch_block :: "env \<Rightarrow> uuid option \<Rightarrow> string \<Rightarrow> store \<Rightarrow> response \<times> store" where
  "catch_block e pitch_id m s =
     (\<lparr>r_status = 500, r_body = ErrorBody (message_or_default m)\<rparr>,
      (case pitch_id of
         None \<Rightarrow> s
       | Some pid \<Rightarrow>
           if pid = [] then s
           else update_pitch pid
                  (\<lambda>p. p\<lparr>p_ai_processing_status := failed,
                          p_ai_processing_error := Some (message_or_default m),
                          p_ai_processing_completed_at := Some (completed_now e)\<rparr>) s))"

text \<open>The tail shared by the mock branch and the API branch: insert the feedback row,
  throw on an insert error, otherwise mark the pitch completed and answer 200.\<close>

definition store_feedback :: "env \<Rightarrow> uuid \<Rightarrow> feedback \<Rightarrow> store \<Rightarrow> response \<times> store" where
  "store_feedback e pid fb s =
     (case insert_feedback \<lparr>f_pitch_id = pid, f_feedback = fb\<rparr> s of
        Inl insertError \<Rightarrow> catch_block e (Some pid) (db_message e insertError) s
      | Inr s' \<Rightarrow>
          (\<lparr>r_status = 200, r_body = SuccessBody fb\<rparr>,
           update_pitch pid
             (\<lambda>p. p\<lparr>p_ai_processing_status := completed,
                     p_ai_processing_completed_at := Some (completed_now e),
                     p_ai_processing_error := None\<rparr>) s'))"

text \<open>\<open>!openaiApiKey\<close>: the variable is unset or empty.\<close>

definition no_api_key :: "env \<Rightarrow> bool" where
  "no_api_key e = (case OPENAI_API_KEY e of None \<Rightarrow> True | Some k \<Rightarrow> k = [])"

definition mark_processing :: "env \<Rightarrow> uuid \<Rightarrow> store \<Rightarrow> store" where
  "mark_processing e pid s =
     update_pitch pid
       (\<lambda>p. p\<lparr>p_ai_processing_status := processing,
               p_ai_processing_started_at := Some (started_now e)\<rparr>) s"

text \<open>The handler from the pitch lookup on, run on the store in which the pitch has
  already been marked as processing.\<close>

definition generate_for :: "env \<Rightarrow> uuid \<Rightarrow> store \<Rightarrow> response \<times> store" where
  "generate_for e pid s1 =
     (case select_single pid s1 of
        None \<Rightarrow> (\<lparr>r_status = 404, r_body = ErrorBody ''Pitch not found''\<rparr>, s1)
      | Some pitch \<Rightarrow>
          if no_api_key e then store_feedback e pid mockFeedback s1
          else
            (case openai e of
               FetchThrows m \<Rightarrow> catch_block e (Some pid) m s1
             | NotOk code errorText \<Rightarrow>
                 catch_block e (Some pid)
                   (''OpenAI API error: '' @ digit_chars code @ '' - '' @ errorText) s1
             | Malformed m \<Rightarrow> catch_block e (Some pid) m s1
             | Parsed fb \<Rightarrow> store_feedback e pid fb s1))"

definition handler :: "env \<Rightarrow> request \<Rightarrow> store \<Rightarrow> response \<times> store" where
  "handler e req s =
     (if req_method req = ''OPTIONS'' then (\<lparr>r_status = 200, r_body = NoBody\<rparr>, s)
      else case req_body req of
        Unparsable m \<Rightarrow> catch_block e None m s
      | Json None \<Rightarrow> (\<lparr>r_status = 400, r_body = ErrorBody ''pitch_id is required''\<rparr>, s)
      | Json (Some pid) \<Rightarrow>
          if pid = [] then (\<lparr>r_status = 400, r_body = ErrorBody ''pitch_id is required''\<rparr>, s)
          else generate_for e pid (mark_processing e pid s))"

section \<open>Voting\<close>

definition vote_key :: "vote_row \<Rightarrow> uuid \<times> uuid" where
  "vote_key v = (v_pitch_id v, v_user_id v)"

text \<open>\<open>INSERT INTO votes\<close> by the signed-in user \<open>auth_uid\<close>: the insert policy (the row is
  the caller's own and the pitch is not the caller's), \<open>UNIQUE(pitch_id, user_id)\<close> and the
  foreign key to \<open>pitches\<close>.\<close>

definition insert_vote :: "uuid \<Rightarrow> vote_row \<Rightarrow> store \<Rightarrow> db_error + store" where
  "insert_vote auth_uid r s =
     (if \<not> (auth_uid = v_user_id r
             \<and> \<not> (\<exists>p \<in> set (pitches s). p_id p = v_pitch_id r \<and> p_user_id p = auth_uid))
        then Inl policy_violation
      else if vote_key r \<in> set (map vote_key (votes s))
        then Inl unique_violation
      else if v_pitch_id r \<notin> set (map p_id (pitches s))
        then Inl foreign_key_violation
      else Inr (s\<lparr>votes := votes s @ [r]\<rparr>))"

text \<open>\<open>UPDATE votes SET vote_type = vt WHERE pitch_id = pid AND user_id = uid\<close> under the
  update policy, which lets the caller touch only rows of their own.\<close>

definition update_vote :: "uuid \<Rightarrow> uuid \<Rightarrow> uuid \<Rightarrow> vote_type \<Rightarrow> store \<Rightarrow> store" where
  "update_vote auth_uid pid uid vt s =
     s\<lparr>votes := map (\<lambda>v. if auth_uid = v_user_id v \<and> v_pitch_id v = pid \<and> v_user_id v = uid
                           then v\<lparr>v_vote_type := vt\<rparr> else v) (votes s)\<rparr>"

text \<open>\<open>.maybeSingle()\<close>: the row when exactly one matches, no data otherwise.\<close>

definition maybeSingle :: "'a list \<Rightarrow> 'a option" where
  "maybeSingle xs = (case xs of [x] \<Rightarrow> Some x | _ \<Rightarrow> None)"

record vote_counts =
  vc_interesting :: nat
  vc_needs_work :: nat

definition count_votes :: "uuid \<Rightarrow> store \<Rightarrow> vote_counts" where
  "count_votes pid s =
     (let vs = filter (\<lambda>v. v_pitch_id v = pid) (votes s)
      in \<lparr>vc_interesting = length (filter (\<lambda>v. v_vote_type v = interesting) vs),
          vc_needs_work = length (filter (\<lambda>v. v_vote_type v = needs_work) vs)\<rparr>)"

text \<open>The select policies on \<open>pitches\<close>: published rows and the caller's own.\<close>

definition visible_pitch :: "uuid \<Rightarrow> pitch_row \<Rightarrow> bool" where
  "visible_pitch auth_uid p = (p_status p = published \<or> p_user_id p = auth_uid)"

record PitchDetail =
  d_pitch :: pitch_row
  d_vote_counts :: vote_counts
  d_ai_feedback :: "feedback option"
  d_user_vote :: "vote_type option"

text \<open>\<open>PitchDetailView.loadPitchDetail\<close>: the value given to \<open>setPitch\<close>, or nothing when the
  pitch query fails and the view keeps what it had.\<close>

definition loadPitchDetail :: "uuid \<Rightarrow> uuid \<Rightarrow> store \<Rightarrow> PitchDetail option" where
  "loadPitchDetail uid pitchId s =
     (case maybeSingle (filter (\<lambda>p. p_id p = pitchId \<and> visible_pitch uid p) (pitches s)) of
        None \<Rightarrow> None
      | Some pitchData \<Rightarrow>
          Some \<lparr>d_pitch = pitchData,
                d_vote_counts = count_votes pitchId s,
                d_ai_feedback =
                  map_option f_feedback
                    (maybeSingle (filter (\<lambda>r. f_pitch_id r = pitchId) (ai_feedback s))),
                d_user_vote =
                  map_option v_vote_type
                    (maybeSingle
                       (filter (\<lambda>v. v_pitch_id v = pitchId \<and> v_user_id v = uid) (votes s)))\<rparr>)"

text \<open>\<open>PitchDetailView.handleVote\<close>, on the pitch the view holds (as loaded earlier). The
  result of the database call is not inspected.\<close>

definition PitchDetailView_handleVote ::
  "uuid option \<Rightarrow> uuid \<Rightarrow> PitchDetail option \<Rightarrow> bool \<Rightarrow> vote_type \<Rightarrow> store \<Rightarrow> store" where
  "PitchDetailView_handleVote user pitchId pitch voting voteType s =
     (case user of
        None \<Rightarrow> s
      | Some uid \<Rightarrow>
          (case pitch of
             None \<Rightarrow> s
           | Some pd \<Rightarrow>
               if p_user_id (d_pitch pd) = uid \<or> voting then s
               else if d_user_vote pd \<noteq> None then update_vote uid pitchId uid voteType s
               else (case insert_vote uid
                            \<lparr>v_pitch_id = pitchId, v_user_id = uid, v_vote_type = voteType\<rparr> s of
                       Inl err \<Rightarrow> s
                     | Inr s' \<Rightarrow> s')))"

text \<open>The discover feed holds the pitches loaded when it was mounted (those the user had
  not voted on then), of which \<open>handleVote\<close> reads the id of the current one.\<close>

record feed =
  feed_pitches :: "uuid list"
  currentIndex :: nat
  feed_voting :: bool

definition DiscoverFeed_handleVote ::
  "uuid option \<Rightarrow> feed \<Rightarrow> vote_type \<Rightarrow> store \<Rightarrow> feed \<times> store" where
  "DiscoverFeed_handleVote user fs voteType s =
     (case user of
        None \<Rightarrow> (fs, s)
      | Some uid \<Rightarrow>
          if currentIndex fs \<ge> length (feed_pitches fs) \<or> feed_voting fs then (fs, s)
          else (case insert_vote uid
                       \<lparr>v_pitch_id = feed_pitches fs ! currentIndex fs, v_user_id = uid,
                        v_vote_type = voteType\<rparr> s of
                  Inl error \<Rightarrow> (fs, s)
                | Inr s' \<Rightarrow> (fs\<lparr>currentIndex := currentIndex fs + 1\<rparr>, s')))"

section \<open>Pitch submission form\<close>

record PitchFormData =
  title :: js_string
  target_audience :: js_string
  pain_point :: js_string
  product_description :: js_string
  elevator_pitch :: js_string

text \<open>The code units that \<open>trim\<close> strips and \<open>\s\<close> matches: ECMAScript's white space and
  line terminators.\<close>

definition is_white_space :: "nat \<Rightarrow> bool" where
  "is_white_space c =
     (c \<in> set [9, 10, 11, 12, 13, 32, 160, 5760, 8232, 8233, 8239, 8287, 12288, 65279]
      \<or> (8192 \<le> c \<and> c \<le> 8202))"

definition trim :: "js_string \<Rightarrow> js_string" where
  "trim s = rev (dropWhile is_white_space (rev (dropWhile is_white_space s)))"

text \<open>\<open>s.split(/\s+/)\<close>: the pieces between the maximal runs of white space; a run at
  either end leaves an empty piece there, and the empty string gives one empty piece.\<close>

fun split_ws :: "js_string \<Rightarrow> js_string list" where
  "split_ws [] = [[]]"
| "split_ws (c # cs) =
     (if is_white_space c then
        (case cs of
           [] \<Rightarrow> [] # split_ws cs
         | d # ds \<Rightarrow> if is_white_space d then split_ws cs else [] # split_ws cs)
      else
        (case split_ws cs of
           [] \<Rightarrow> [[c]]
         | w # ws \<Rightarrow> (c # w) # ws))"

record form =
  step :: nat
  loading :: bool
  draftId :: "uuid option"
  formData :: PitchFormData

definition totalSteps :: nat where
  "totalSteps = 5"

definition isStepValid :: "form \<Rightarrow> bool" where
  "isStepValid st =
     (if step st = 1 then length (trim (title (formData st))) > 0
      else if step st = 2 then length (trim (target_audience (formData st))) > 0
      else if step st = 3 then length (trim (pain_point (formData st))) > 0
      else if step st = 4 then length (trim (product_description (formData st))) > 0
      else if step st = 5 then
        (let wordCount = length (split_ws (trim (elevator_pitch (formData st))))
         in wordCount \<ge> 250 \<and> wordCount \<le> 500)
      else False)"

definition getWordCount :: "form \<Rightarrow> nat" where
  "getWordCount st =
     length (filter (\<lambda>word. length word > 0) (split_ws (trim (elevator_pitch (formData st)))))"

text \<open>The asynchronous calls a click starts.\<close>

datatype form_call = SaveDraft PitchFormData | HandleSubmit PitchFormData

definition handleNext :: "form \<Rightarrow> form \<times> form_call list" where
  "handleNext st =
     (if step st < totalSteps then (st\<lparr>step := step st + 1\<rparr>, [SaveDraft (formData st)])
      else (st, [SaveDraft (formData st), HandleSubmit (formData st)]))"

text \<open>A click on the button at the bottom of the form: a disabled button does not call
  its handler.\<close>

definition click_next :: "form \<Rightarrow> form \<times> form_call list" where
  "click_next st = (if \<not> isStepValid st \<or> loading st then (st, []) else handleNext st)"

text \<open>The rows the form writes. \<open>saveDraft\<close> writes them with status draft, \<open>handleSubmit\<close>
  with status published: an update of the draft at hand (the update policy lets through
  the caller's own rows), else an insert, where the database supplies the id, the
  creation time and the pending status, and refuses an id already taken.\<close>

definition form_columns :: "PitchFormData \<Rightarrow> pitch_status \<Rightarrow> pitch_row \<Rightarrow> pitch_row" where
  "form_columns fd st p =
     p\<lparr>p_title := title fd, p_target_audience := target_audience fd,
       p_pain_point := pain_point fd, p_product_description := product_description fd,
       p_elevator_pitch := elevator_pitch fd, p_status := st\<rparr>"

definition insert_pitch ::
  "uuid \<Rightarrow> timestamptz \<Rightarrow> uuid \<Rightarrow> PitchFormData \<Rightarrow> pitch_status \<Rightarrow> store \<Rightarrow> db_error + store" where
  "insert_pitch new_id now uid fd st s =
     (if new_id \<in> set (map p_id (pitches s)) then Inl unique_violation
      else Inr (s\<lparr>pitches := pitches s @
                  [\<lparr>p_id = new_id, p_user_id = uid, p_title = title fd,
                    p_target_audience = target_audience fd, p_pain_point = pain_point fd,
                    p_product_description = product_description fd,
                    p_elevator_pitch = elevator_pitch fd, p_status = st,
                    p_ai_processing_status = pending, p_ai_processing_started_at = None,
                    p_ai_processing_completed_at = None, p_ai_processing_error = None,
                    p_created_at = now\<rparr>]\<rparr>))"

definition write_pitch ::
  "uuid \<Rightarrow> timestamptz \<Rightarrow> uuid \<Rightarrow> uuid option \<Rightarrow> PitchFormData \<Rightarrow> pitch_status \<Rightarrow> store \<Rightarrow> store" where
  "write_pitch new_id now uid draft_id fd st s =
     (case draft_id of
        Some d \<Rightarrow>
          s\<lparr>pitches := map (\<lambda>p. if p_id p = d \<and> p_user_id p = uid then form_columns fd st p else p)
                          (pitches s)\<rparr>
      | None \<Rightarrow> (case insert_pitch new_id now uid fd st s of Inl error \<Rightarrow> s | Inr s' \<Rightarrow> s'))"

section \<open>Status backfill of the migration\<close>

text \<open>The two \<open>UPDATE\<close> statements of the migration that adds the processing columns: a
  published pitch still pending becomes completed (as of its creation) when it has a
  feedback row, and failed with a fixed message when it has none.\<close>

definition has_feedback :: "store \<Rightarrow> pitch_row \<Rightarrow> bool" where
  "has_feedback s p \<longleftrightarrow> p_id p \<in> set (map f_pitch_id (ai_feedback s))"

definition backfill_completed :: "store \<Rightarrow> pitch_row \<Rightarrow> pitch_row" where
  "backfill_completed s p =
     (if p_status p = published \<and> has_feedback s p \<and> p_ai_processing_status p = pending
      then p\<lparr>p_ai_processing_status := completed,
             p_ai_processing_completed_at := Some (p_created_at p)\<rparr>
      else p)"

definition backfill_failed :: "store \<Rightarrow> pitch_row \<Rightarrow> pitch_row" where
  "backfill_failed s p =
     (if p_status p = published \<and> \<not> has_feedback s p \<and> p_ai_processing_status p = pending
      then p\<lparr>p_ai_processing_status := failed,
             p_ai_processing_error :=
               Some ''AI feedback generation was not completed. Please retry.''\<rparr>
      else p)"

definition backfill_ai_status :: "store \<Rightarrow> store" where
  "backfill_ai_status s =
     s\<lparr>pitches := map (backfill_failed s) (map (backfill_completed s) (pitches s))\<rparr>"

section \<open>Reachable stores\<close>

text \<open>The stores the application can bring about from empty tables: the form writes a
  pitch, the endpoint is invoked (by the form, by a retry, or by anyone with any body),
  a signed-in user votes from the detail view or from the feed, each with whatever
  the view holds at that moment, and the migration's backfill runs.\<close>

inductive reachable :: "store \<Rightarrow> bool" where
  start: "reachable \<lparr>pitches = [], ai_feedback = [], votes = []\<rparr>"
| form_write: "reachable s \<Longrightarrow> reachable (write_pitch new_id now uid draft_id fd st s)"
| invoke: "reachable s \<Longrightarrow> reachable (snd (handler e req s))"
| detail_vote:
    "reachable s \<Longrightarrow> reachable (PitchDetailView_handleVote user pitchId pitch voting voteType s)"
| feed_vote: "reachable s \<Longrightarrow> reachable (snd (DiscoverFeed_handleVote user fs voteType s))"
| backfill: "reachable s \<Longrightarrow> reachable (backfill_ai_status s)"

text \<open>What the constraints and policies keep true of the tables: a pitch id occurs in at
  most one feedback row and every completed pitch has one; a pair of pitch and voter
  occurs in at most one vote, every vote is on a pitch of the table, and no vote is by
  the owner of its pitch.\<close>

definition feedback_invariant :: "store \<Rightarrow> bool" where
  "feedback_invariant s \<longleftrightarrow>
     distinct (map f_pitch_id (ai_feedback s))
     \<and> (\<forall>p \<in> set (pitches s).
           p_ai_processing_status p = completed \<longrightarrow> p_id p \<in> set (map f_pitch_id (ai_feedback s)))"

definition votes_invariant :: "store \<Rightarrow> bool" where
  "votes_invariant s \<longleftrightarrow>
     distinct (map vote_key (votes s))
     \<and> (\<forall>v \<in> set (votes s). v_pitch_id v \<in> set (map p_id (pitches s)))
     \<and> (\<forall>v \<in> set (votes s). \<forall>p \<in> set (pitches s).
           p_id p = v_pitch_id v \<longrightarrow> p_user_id p \<noteq> v_user_id v)"

section \<open>Leaderboard\<close>

record LeaderboardPitch =
  lb_id :: uuid
  lb_title :: js_string
  lb_product_description :: js_string
  lb_vote_counts :: vote_counts
  lb_ai_score :: "int option"
  lb_rank :: nat

datatype leaderboard_filter = filter_all | filter_today | filter_week

text \<open>The two dates the filters compare with: the start of the current local day, and the
  moment seven days before now.\<close>

record leaderboard_clock =
  today_start :: timestamptz
  week_ago :: timestamptz

definition passes_filter :: "leaderboard_clock \<Rightarrow> leaderboard_filter \<Rightarrow> pitch_row \<Rightarrow> bool" where
  "passes_filter clock f p =
     (p_status p = published \<and>
      (case f of
         filter_today \<Rightarrow> p_created_at p \<ge> today_start clock
       | filter_week \<Rightarrow> p_created_at p \<ge> week_ago clock
       | filter_all \<Rightarrow> True))"

definition with_data :: "store \<Rightarrow> pitch_row \<Rightarrow> LeaderboardPitch" where
  "with_data s pitch =
     \<lparr>lb_id = p_id pitch, lb_title = p_title pitch,
      lb_product_description = p_product_description pitch,
      lb_vote_counts = count_votes (p_id pitch) s,
      lb_ai_score =
        map_option (\<lambda>r. overall_score (f_feedback r))
          (maybeSingle (filter (\<lambda>r. f_pitch_id r = p_id pitch) (ai_feedback s))),
      lb_rank = 0\<rparr>"

text \<open>\<open>Array.prototype.sort\<close> with a comparator is a stable sort: an element goes before the
  first element it does not compare greater than.\<close>

fun insert_by :: "('a \<Rightarrow> 'a \<Rightarrow> int) \<Rightarrow> 'a \<Rightarrow> 'a list \<Rightarrow> 'a list" where
  "insert_by cmp x [] = [x]"
| "insert_by cmp x (y # ys) = (if cmp x y \<le> 0 then x # y # ys else y # insert_by cmp x ys)"

definition sort_by :: "('a \<Rightarrow> 'a \<Rightarrow> int) \<Rightarrow> 'a list \<Rightarrow> 'a list" where
  "sort_by cmp xs = foldr (insert_by cmp) xs []"

definition by_interesting :: "LeaderboardPitch \<Rightarrow> LeaderboardPitch \<Rightarrow> int" where
  "by_interesting a b =
     int (vc_interesting (lb_vote_counts b)) - int (vc_interesting (lb_vote_counts a))"

text \<open>The number the comparator looks at.\<close>

definition votes_of :: "LeaderboardPitch \<Rightarrow> nat" where
  "votes_of e = vc_interesting (lb_vote_counts e)"

text \<open>\<open>.map((pitch, index) => ({ ...pitch, rank: index + 1 }))\<close>, from index \<open>i\<close> on.\<close>

fun with_ranks :: "nat \<Rightarrow> LeaderboardPitch list \<Rightarrow> LeaderboardPitch list" where
  "with_ranks i [] = []"
| "with_ranks i (pitch # rest) = pitch\<lparr>lb_rank := i + 1\<rparr> # with_ranks (i + 1) rest"

text \<open>The query for the pitches has no \<open>ORDER BY\<close>: the database answers with the
  published pitches of the window, in an order of its choosing.\<close>

definition answers_query ::
  "leaderboard_clock \<Rightarrow> leaderboard_filter \<Rightarrow> store \<Rightarrow> pitch_row list \<Rightarrow> bool" where
  "answers_query clock f s pitchData \<longleftrightarrow>
     mset pitchData = mset (filter (passes_filter clock f) (pitches s))"

text \<open>\<open>loadLeaderboard\<close> from the answer of that query on.\<close>

definition loadLeaderboard :: "store \<Rightarrow> pitch_row list \<Rightarrow> LeaderboardPitch list" where
  "loadLeaderboard s pitchData =
     (let pitchesWithData = map (with_data s) pitchData
      in take 20 (with_ranks 0 (sort_by by_interesting pitchesWithData)))"

text \<open>For the statements about the board: the votes of a kind that a pitch has in the
  store, and the pitches the selected filter lets through.\<close>

abbreviation votes_for :: "store \<Rightarrow> vote_type \<Rightarrow> uuid \<Rightarrow> nat" where
  "votes_for s kind pid \<equiv>
     length (filter (\<lambda>v. v_pitch_id v = pid \<and> v_vote_type v = kind) (votes s))"

abbreviation published_in_window ::
  "leaderboard_clock \<Rightarrow> leaderboard_filter \<Rightarrow> pitch_row \<Rightarrow> bool" where
  "published_in_window clock f p \<equiv>
     p_status p = published
     \<and> (f = filter_today \<longrightarrow> today_start clock \<le> p_created_at p)
     \<and> (f = filter_week \<longrightarrow> week_ago clock \<le> p_created_at p)"

text \<open>The share of positive votes shown with an entry:
  \<open>Math.round((interesting / (interesting + needs_work || 1)) * 100)\<close>. The counts are
  array lengths, which numbers hold exactly. A quotient or product is the nearest number
  of 53 significant bits, ties going to the even one; a division by zero gives
  not-a-number (zero by zero) or infinity. Finite values are kept as a numerator and a
  denominator. The exponent range of numbers is not modelled: with array lengths no
  value here is small or large enough to leave it.\<close>

datatype js_number = NaN | Infinity | Fraction nat nat

text \<open>\<open>x || 1\<close> on a count: 1 when \<open>x\<close> is 0.\<close>

definition or_one :: "nat \<Rightarrow> nat" where
  "or_one x = (if x = 0 then 1 else x)"

definition percent_denominator :: "vote_counts \<Rightarrow> nat" where
  "percent_denominator vc = or_one (vc_interesting vc + vc_needs_work vc)"

fun bit_length :: "nat \<Rightarrow> nat" where
  "bit_length n = (if n = 0 then 0 else Suc (bit_length (n div 2)))"

declare bit_length.simps [simp del]

text \<open>Whether \<open>2 ^ e \<le> n / d\<close>, and the largest such \<open>e\<close> for positive \<open>n\<close> and \<open>d\<close>.\<close>

definition at_least_power :: "nat \<Rightarrow> nat \<Rightarrow> int \<Rightarrow> bool" where
  "at_least_power n d e = (if 0 \<le> e then d * 2 ^ nat e \<le> n else d \<le> n * 2 ^ nat (- e))"

definition binary_exponent :: "nat \<Rightarrow> nat \<Rightarrow> int" where
  "binary_exponent n d =
     (let e = int (bit_length n) - int (bit_length d)
      in if at_least_power n d e then e else e - 1)"

text \<open>\<open>n / d\<close> to the nearest integer, a tie going to the even one.\<close>

definition nearest_even :: "nat \<Rightarrow> nat \<Rightarrow> nat" where
  "nearest_even n d =
     (let q = n div d; r = n mod d
      in if 2 * r < d then q else if d < 2 * r then q + 1 else if even q then q else q + 1)"

text \<open>The number nearest to \<open>n / d\<close>: an integer of at most 53 bits times a power of two.\<close>

definition to_double :: "nat \<Rightarrow> nat \<Rightarrow> nat \<times> nat" where
  "to_double n d =
     (if n = 0 then (0, 1)
      else
        let k = 52 - binary_exponent n d
        in if 0 \<le> k then (nearest_even (n * 2 ^ nat k) d, 2 ^ nat k)
           else (nearest_even n (d * 2 ^ nat (- k)) * 2 ^ nat (- k), 1))"

definition js_divide :: "nat \<Rightarrow> nat \<Rightarrow> js_number" where
  "js_divide a b =
     (if b = 0 then (if a = 0 then NaN else Infinity)
      else (case to_double a b of (n, d) \<Rightarrow> Fraction n d))"

fun js_times :: "js_number \<Rightarrow> nat \<Rightarrow> js_number" where
  "js_times NaN k = NaN"
| "js_times Infinity k = (if k = 0 then NaN else Infinity)"
| "js_times (Fraction n d) k = (case to_double (n * k) d of (n', d') \<Rightarrow> Fraction n' d')"

text \<open>\<open>Math.round\<close>: the nearest integer, a tie going up.\<close>

fun Math_round :: "js_number \<Rightarrow> js_number" where
  "Math_round NaN = NaN"
| "Math_round Infinity = Infinity"
| "Math_round (Fraction n d) = Fraction ((2 * n + d) div (2 * d)) 1"

definition percent_positive :: "vote_counts \<Rightarrow> js_number" where
  "percent_positive vc =
     Math_round (js_times (js_divide (vc_interesting vc) (percent_denominator vc)) 100)"

section \<open>Sample data\<close>

text \<open>A pitch, a store and an environment to run the definitions on.\<close>

definition demo_pitch :: pitch_row where
  "demo_pitch =
     \<lparr>p_id = ''p1'', p_user_id = ''alice'', p_title = utf16 ''EcoTrack'',
      p_target_audience = utf16 ''shoppers'', p_pain_point = utf16 ''research takes time'',
      p_product_description = utf16 ''a barcode scanner'', p_elevator_pitch = utf16 ''Imagine'',
      p_status = published, p_ai_processing_status = pending,
      p_ai_processing_started_at = None, p_ai_processing_completed_at = None,
      p_ai_processing_error = None, p_created_at = 1000\<rparr>"

definition demo_form :: PitchFormData where
  "demo_form =
     \<lparr>title = utf16 ''EcoTrack'', target_audience = utf16 ''shoppers'',
      pain_point = utf16 ''research takes time'',
      product_description = utf16 ''a barcode scanner'', elevator_pitch = utf16 ''Imagine''\<rparr>"

text \<open>The form on its last step, holding that pitch.\<close>

definition demo_form_state :: form where
  "demo_form_state = \<lparr>step = 5, loading = False, draftId = None, formData = demo_form\<rparr>"

definition demo_store :: store where
  "demo_store = \<lparr>pitches = [demo_pitch], ai_feedback = [], votes = []\<rparr>"

definition demo_env :: env where
  "demo_env =
     \<lparr>OPENAI_API_KEY = None, openai = NotOk 401 ''unauthorized'',
      db_message = (\<lambda>err. ''database error''), started_now = 2000, completed_now = 3000\<rparr>"

definition post :: "uuid option \<Rightarrow> request" where
  "post pid = \<lparr>req_method = ''POST'', req_body = Json pid\<rparr>"

text \<open>The store after the endpoint has run once for the sample pitch, and an environment
  with a key configured, in which the API answers as given.\<close>

definition completed_store :: store where
  "completed_store = snd (handler demo_env (post (Some ''p1'')) demo_store)"

text \<open>The store after bob has voted on the sample pitch from its detail view.\<close>

definition voted_store :: store where
  "voted_store =
     PitchDetailView_handleVote (Some ''bob'') ''p1'' (loadPitchDetail ''bob'' ''p1'' demo_store)
       False interesting demo_store"

text \<open>The feed as loaded for bob before that vote, and what the detail view holds for
  bob before and after it.\<close>

definition demo_feed :: feed where
  "demo_feed = \<lparr>feed_pitches = [''p1''], currentIndex = 0, feed_voting = False\<rparr>"

definition demo_detail :: PitchDetail where
  "demo_detail =
     \<lparr>d_pitch = demo_pitch, d_vote_counts = \<lparr>vc_interesting = 0, vc_needs_work = 0\<rparr>,
      d_ai_feedback = None, d_user_vote = None\<rparr>"

definition voted_detail :: PitchDetail where
  "voted_detail =
     \<lparr>d_pitch = demo_pitch, d_vote_counts = \<lparr>vc_interesting = 1, vc_needs_work = 0\<rparr>,
      d_ai_feedback = None, d_user_vote = Some interesting\<rparr>"

text \<open>A store for the leaderboard: 22 published pitches, created at times 1 to 22, and
  a draft; votes on some of them; a clock by which the week began at time 2; and the
  answer of the query for this week with the newest pitch first.\<close>

definition board_pitch :: "uuid \<times> timestamptz \<times> pitch_status \<Rightarrow> pitch_row" where
  "board_pitch x =
     (case x of (pid, created, st) \<Rightarrow>
        \<lparr>p_id = pid, p_user_id = ''alice'', p_title = [], p_target_audience = [],
         p_pain_point = [], p_product_description = [], p_elevator_pitch = [],
         p_status = st, p_ai_processing_status = pending,
         p_ai_processing_started_at = None, p_ai_processing_completed_at = None,
         p_ai_processing_error = None, p_created_at = created\<rparr>)"

definition board_vote :: "uuid \<times> uuid \<times> vote_type \<Rightarrow> vote_row" where
  "board_vote x =
     (case x of (pid, uid, kind) \<Rightarrow> \<lparr>v_pitch_id = pid, v_user_id = uid, v_vote_type = kind\<rparr>)"

definition board_store :: store where
  "board_store =
     \<lparr>pitches = map board_pitch
       [(''01'', 1, published), (''02'', 2, published), (''03'', 3, published), (''04'', 4,
        published), (''05'', 5, published), (''06'', 6, published), (''07'', 7, published),
        (''08'', 8, published), (''09'', 9, published), (''10'', 10, published), (''11'',
        11, published), (''12'', 12, published), (''13'', 13, published), (''14'', 14,
        published), (''15'', 15, published), (''16'', 16, published), (''17'', 17,
        published), (''18'', 18, published), (''19'', 19, published), (''20'', 20,
        published), (''21'', 21, published), (''22'', 22, published), (''23'', 23, draft)],
      ai_feedback = [],
      votes = map board_vote
       [(''01'', ''bob'', interesting), (''01'', ''carol'', interesting),
        (''01'', ''dave'', interesting), (''22'', ''bob'', interesting),
        (''22'', ''carol'', interesting), (''10'', ''bob'', interesting),
        (''05'', ''bob'', needs_work), (''23'', ''bob'', interesting)]\<rparr>"

definition board_clock :: leaderboard_clock where
  "board_clock = \<lparr>today_start = 20, week_ago = 2\<rparr>"

definition board_rows :: "pitch_row list" where
  "board_rows = rev (filter (passes_filter board_clock filter_week) (pitches board_store))"

definition keyed_env :: "openai_outcome \<Rightarrow> env" where
  "keyed_env outcome = demo_env\<lparr>OPENAI_API_KEY := Some ''sk-test'', openai := outcome\<rparr>"

section \<open>Lemmas on the endpoint\<close>

lemma length_filter_id_update:
  assumes "\<And>p. p_id (f p) = p_id p"
  shows "length (filter (\<lambda>p. p_id p = pid) (map (\<lambda>p. if p_id p = pid' then f p else p) xs))
         = length (filter (\<lambda>p. p_id p = pid) xs)"
  by (induction xs) (auto simp: assms)

lemma pitches_update_pitch:
  "pitches (update_pitch pid f s) = map (\<lambda>p. if p_id p = pid then f p else p) (pitches s)"
  by (simp add: update_pitch_def)

lemma select_single_update_pitch:
  assumes "\<And>p. p_id (f p) = p_id p"
  shows "select_single pid (update_pitch pid' f s) = None \<longleftrightarrow> select_single pid s = None"
proof -
  have "length (filter (\<lambda>p. p_id p = pid) (pitches (update_pitch pid' f s)))
        = length (filter (\<lambda>p. p_id p = pid) (pitches s))"
    by (simp only: pitches_update_pitch length_filter_id_update [OF assms])
  then show ?thesis
    unfolding select_single_def
    by (cases "filter (\<lambda>p. p_id p = pid) (pitches (update_pitch pid' f s))";
        cases "filter (\<lambda>p. p_id p = pid) (pitches s)")
       (auto split: list.splits)
qed

lemma filter_id_update_same:
  assumes "\<And>p. p_id (f p) = p_id p"
  shows "filter (\<lambda>p. p_id p = pid) (map (\<lambda>p. if p_id p = pid then f p else p) xs)
         = map f (filter (\<lambda>p. p_id p = pid) xs)"
  by (induction xs) (auto simp: assms)

lemma select_single_Some_iff:
  "select_single pid s = Some p \<longleftrightarrow> filter (\<lambda>p. p_id p = pid) (pitches s) = [p]"
  by (auto simp: select_single_def split: list.splits)

lemma select_single_update_same:
  assumes "\<And>p. p_id (f p) = p_id p" and "select_single pid s = Some p"
  shows "select_single pid (update_pitch pid f s) = Some (f p)"
  using assms(2)
  by (simp only: select_single_Some_iff pitches_update_pitch filter_id_update_same [OF assms(1)])
     simp

lemma select_single_mem:
  assumes "select_single pid s = Some p"
  shows "p \<in> set (pitches s) \<and> p_id p = pid"
proof -
  from assms have "filter (\<lambda>p. p_id p = pid) (pitches s) = [p]"
    by (simp only: select_single_Some_iff)
  then have "p \<in> set (filter (\<lambda>p. p_id p = pid) (pitches s))"
    by simp
  then show ?thesis by simp
qed

lemma ids_update_pitch:
  assumes "\<And>p. p_id (f p) = p_id p"
  shows "map p_id (pitches (update_pitch pid f s)) = map p_id (pitches s)"
  by (simp add: pitches_update_pitch assms)

lemma ai_feedback_update_pitch [simp]:
  "ai_feedback (update_pitch pid f s) = ai_feedback s"
  by (simp add: update_pitch_def)

lemma votes_update_pitch [simp]:
  "votes (update_pitch pid f s) = votes s"
  by (simp add: update_pitch_def)

lemma select_single_feedback_irrelevant [simp]:
  "select_single pid (s\<lparr>ai_feedback := x\<rparr>) = select_single pid s"
  by (simp add: select_single_def)

lemma found_after_mark:
  assumes "select_single pid s = Some p"
  shows "select_single pid (mark_processing e pid s)
      = Some (p\<lparr>p_ai_processing_status := processing,
                p_ai_processing_started_at := Some (started_now e)\<rparr>)"
  unfolding mark_processing_def
  by (rule select_single_update_same) (simp_all add: assms)

lemma handler_found:
  assumes "req_method req \<noteq> ''OPTIONS''" and "req_body req = Json (Some pid)" and "pid \<noteq> []"
  shows "handler e req s = generate_for e pid (mark_processing e pid s)"
  using assms by (simp add: handler_def)

lemma catch_block_found:
  assumes "select_single pid s = Some p" and "pid \<noteq> []"
  shows "fst (catch_block e (Some pid) m (mark_processing e pid s))
           = \<lparr>r_status = 500, r_body = ErrorBody (message_or_default m)\<rparr>
    \<and> select_single pid (snd (catch_block e (Some pid) m (mark_processing e pid s)))
        = Some (p\<lparr>p_ai_processing_status := failed,
                  p_ai_processing_started_at := Some (started_now e),
                  p_ai_processing_error := Some (message_or_default m),
                  p_ai_processing_completed_at := Some (completed_now e)\<rparr>)
    \<and> ai_feedback (snd (catch_block e (Some pid) m (mark_processing e pid s))) = ai_feedback s"
proof -
  have "select_single pid
          (update_pitch pid
            (\<lambda>p. p\<lparr>p_ai_processing_status := failed,
                    p_ai_processing_error := Some (message_or_default m),
                    p_ai_processing_completed_at := Some (completed_now e)\<rparr>)
            (mark_processing e pid s))
        = Some (p\<lparr>p_ai_processing_status := failed,
                  p_ai_processing_started_at := Some (started_now e),
                  p_ai_processing_error := Some (message_or_default m),
                  p_ai_processing_completed_at := Some (completed_now e)\<rparr>)"
    by (subst select_single_update_same [OF _ found_after_mark [OF assms(1)]]) simp_all
  then show ?thesis
    using assms(2) by (simp add: catch_block_def mark_processing_def)
qed

lemma generate_for_with_feedback:
  assumes "select_single pid s = Some p" and "pid \<in> set (map f_pitch_id (ai_feedback s))"
  shows "\<exists>m. generate_for e pid (mark_processing e pid s)
             = catch_block e (Some pid) m (mark_processing e pid s)"
proof -
  let ?s1 = "mark_processing e pid s"
  note found = found_after_mark [OF assms(1), of e]
  have refused: "\<exists>m. store_feedback e pid fb ?s1 = catch_block e (Some pid) m ?s1" for fb
  proof -
    have "\<exists>err. insert_feedback \<lparr>f_pitch_id = pid, f_feedback = fb\<rparr> ?s1 = Inl err"
      using assms(2) by (simp add: insert_feedback_def mark_processing_def)
    then obtain err where "insert_feedback \<lparr>f_pitch_id = pid, f_feedback = fb\<rparr> ?s1 = Inl err"
      by blast
    then have "store_feedback e pid fb ?s1 = catch_block e (Some pid) (db_message e err) ?s1"
      by (simp add: store_feedback_def)
    then show ?thesis by blast
  qed
  show ?thesis
  proof (cases "no_api_key e")
    case True
    with refused [of mockFeedback] show ?thesis
      by (simp add: generate_for_def found)
  next
    case False
    show ?thesis
    proof (cases "openai e")
      case (Parsed fb)
      with False refused [of fb] show ?thesis
        by (simp add: generate_for_def found)
    next
      case (FetchThrows m)
      with False have "generate_for e pid ?s1 = catch_block e (Some pid) m ?s1"
        by (simp add: generate_for_def found)
      then show ?thesis by blast
    next
      case (Malformed m)
      with False have "generate_for e pid ?s1 = catch_block e (Some pid) m ?s1"
        by (simp add: generate_for_def found)
      then show ?thesis by blast
    next
      case (NotOk code errorText)
      with False have "generate_for e pid ?s1
          = catch_block e (Some pid)
              (''OpenAI API error: '' @ digit_chars code @ '' - '' @ errorText) ?s1"
        by (simp add: generate_for_def found)
      then show ?thesis by blast
    qed
  qed
qed

lemma update_pitch_no_row:
  assumes "pid \<notin> set (map p_id (pitches s))"
  shows "update_pitch pid f s = s"
proof -
  have "map (\<lambda>p. if p_id p = pid then f p else p) (pitches s) = pitches s"
    using assms by (intro map_idI) auto
  then show ?thesis
    by (simp add: update_pitch_def)
qed

lemmas run_defs = handler_def post_def generate_for_def mark_processing_def
      update_pitch_def demo_store_def demo_pitch_def select_single_def demo_env_def no_api_key_def
      store_feedback_def insert_feedback_def mockFeedback_def catch_block_def
      message_or_default_def keyed_env_def

lemma completed_store_eq:
  "completed_store =
     \<lparr>pitches = [demo_pitch\<lparr>p_ai_processing_status := completed,
                  p_ai_processing_started_at := Some 2000,
                  p_ai_processing_completed_at := Some 3000\<rparr>],
      ai_feedback = [\<lparr>f_pitch_id = ''p1'', f_feedback = mockFeedback\<rparr>], votes = []\<rparr>"
  by (simp add: completed_store_def run_defs)

lemma digit_chars_401: "digit_chars 401 = ''401''"
  by (simp add: digit_chars.simps)

lemma insert_feedback_Inr:
  assumes "insert_feedback r s = Inr s'"
  shows "s' = s\<lparr>ai_feedback := ai_feedback s @ [r]\<rparr>
         \<and> f_pitch_id r \<notin> set (map f_pitch_id (ai_feedback s))
         \<and> f_pitch_id r \<in> set (map p_id (pitches s))"
  using assms by (auto simp: insert_feedback_def split: if_splits)

lemma handler_preserves:
  assumes "P s"
    and upd: "\<And>pid f s. P s \<Longrightarrow>
       (\<And>p. p_id (f p) = p_id p \<and> p_user_id (f p) = p_user_id p
              \<and> p_ai_processing_status (f p) \<noteq> completed) \<Longrightarrow> P (update_pitch pid f s)"
    and ins: "\<And>pid fb f s. P s \<Longrightarrow> pid \<notin> set (map f_pitch_id (ai_feedback s)) \<Longrightarrow>
       (\<And>p. p_id (f p) = p_id p \<and> p_user_id (f p) = p_user_id p) \<Longrightarrow>
       P (update_pitch pid f (s\<lparr>ai_feedback := ai_feedback s @ [\<lparr>f_pitch_id = pid, f_feedback = fb\<rparr>]\<rparr>))"
  shows "P (snd (handler e req s))"
proof -
  have mark: "P (mark_processing e pid s0)" if "P s0" for pid s0
    unfolding mark_processing_def by (rule upd [OF that]) simp
  have catch: "P (snd (catch_block e po m s0))" if "P s0" for s0 po m
  proof (cases po)
    case None
    then show ?thesis by (simp add: catch_block_def that)
  next
    case (Some pid)
    have "P (update_pitch pid
                  (\<lambda>p. p\<lparr>p_ai_processing_status := failed,
                          p_ai_processing_error := Some (message_or_default m),
                          p_ai_processing_completed_at := Some (completed_now e)\<rparr>) s0)"
      by (rule upd [OF that]) simp
    with Some that show ?thesis by (simp add: catch_block_def)
  qed
  have sf: "P (snd (store_feedback e pid fb s0))" if "P s0" for s0 pid fb
  proof (cases "insert_feedback \<lparr>f_pitch_id = pid, f_feedback = fb\<rparr> s0")
    case (Inl err)
    then show ?thesis by (simp add: store_feedback_def catch [OF that])
  next
    case (Inr s')
    from insert_feedback_Inr [OF Inr]
    have s': "s' = s0\<lparr>ai_feedback := ai_feedback s0 @ [\<lparr>f_pitch_id = pid, f_feedback = fb\<rparr>]\<rparr>"
      and fresh: "pid \<notin> set (map f_pitch_id (ai_feedback s0))"
      by simp_all
    have "P (update_pitch pid
             (\<lambda>p. p\<lparr>p_ai_processing_status := completed,
                     p_ai_processing_completed_at := Some (completed_now e),
                     p_ai_processing_error := None\<rparr>)
             (s0\<lparr>ai_feedback := ai_feedback s0 @ [\<lparr>f_pitch_id = pid, f_feedback = fb\<rparr>]\<rparr>))"
      by (rule ins [OF that fresh]) simp
    then show ?thesis by (simp add: store_feedback_def Inr s')
  qed
  have gen: "P (snd (generate_for e pid s0))" if "P s0" for s0 pid
    by (simp add: generate_for_def catch [OF that] sf [OF that] that
             split: option.splits openai_outcome.splits)
  show ?thesis
    by (simp add: handler_def catch [OF assms(1)] gen [OF mark [OF assms(1)]] assms(1)
             split: req_body.splits option.splits)
qed

lemma others_update_pitch:
  "filter (\<lambda>q. p_id q \<noteq> pid) (pitches (update_pitch pid f s))
   = filter (\<lambda>q. p_id q \<noteq> pid) (pitches s)" if "\<And>p. p_id (f p) = p_id p"
proof -
  have "filter (\<lambda>q. p_id q \<noteq> pid) (map (\<lambda>p. if p_id p = pid then f p else p) xs)
        = filter (\<lambda>q. p_id q \<noteq> pid) xs" for xs
    by (induction xs) (auto simp: that)
  then show ?thesis by (simp only: pitches_update_pitch)
qed

lemma demo_store_written:
  "demo_store
   = write_pitch ''p1'' 1000 ''alice'' None demo_form published
       \<lparr>pitches = [], ai_feedback = [], votes = []\<rparr>"
  by (simp add: demo_store_def demo_pitch_def demo_form_def write_pitch_def insert_pitch_def)

lemma reachable_demo_store: "reachable demo_store"
  unfolding demo_store_written by (rule reachable.form_write [OF reachable.start])

lemma reachable_completed_store: "reachable completed_store"
  unfolding completed_store_def by (rule reachable.invoke [OF reachable_demo_store])

section \<open>Lemmas on the reachable stores\<close>

lemma mem_update_pitch:
  "q \<in> set (pitches (update_pitch pid f s)) \<Longrightarrow>
     q \<in> set (pitches s) \<or> (\<exists>p \<in> set (pitches s). q = f p)"
  by (auto simp: pitches_update_pitch split: if_splits)

lemma feedback_invariant_update:
  assumes "feedback_invariant s" and "\<And>p. p_ai_processing_status (f p) \<noteq> completed"
  shows "feedback_invariant (update_pitch pid f s)"
  using assms(1) mem_update_pitch [of _ pid f s] assms(2)
  unfolding feedback_invariant_def by fastforce

lemma feedback_invariant_insert:
  assumes "feedback_invariant s" and "pid \<notin> set (map f_pitch_id (ai_feedback s))"
    and "\<And>p. p_id (f p) = p_id p"
  shows "feedback_invariant
           (update_pitch pid f (s\<lparr>ai_feedback := ai_feedback s @ [\<lparr>f_pitch_id = pid, f_feedback = fb\<rparr>]\<rparr>))"
proof -
  let ?s' = "s\<lparr>ai_feedback := ai_feedback s @ [\<lparr>f_pitch_id = pid, f_feedback = fb\<rparr>]\<rparr>"
  have d: "distinct (map f_pitch_id (ai_feedback ?s'))"
    using assms(1,2) by (simp add: feedback_invariant_def)
  have "p_id q \<in> set (map f_pitch_id (ai_feedback ?s'))"
    if "q \<in> set (pitches (update_pitch pid f ?s'))" "p_ai_processing_status q = completed" for q
  proof (cases "p_id q = pid")
    case True
    then show ?thesis by simp
  next
    case False
    from that(1) have "q \<in> set (map (\<lambda>p. if p_id p = pid then f p else p) (pitches s))"
      by (simp add: pitches_update_pitch)
    then obtain p where p: "p \<in> set (pitches s)" "q = (if p_id p = pid then f p else p)"
      by auto
    with False assms(3) have "q = p"
      by (auto split: if_splits)
    with p that(2) assms(1) show ?thesis
      by (auto simp: feedback_invariant_def)
  qed
  with d show ?thesis
    by (simp add: feedback_invariant_def)
qed

lemma feedback_invariant_write:
  assumes "feedback_invariant s"
  shows "feedback_invariant (write_pitch new_id now uid draft_id fd st s)"
proof (cases draft_id)
  case None
  then show ?thesis
    using assms
    by (auto simp: write_pitch_def insert_pitch_def feedback_invariant_def)
next
  case (Some d)
  have "p_id q \<in> set (map f_pitch_id (ai_feedback s))"
    if "q \<in> set (map (\<lambda>p. if p_id p = d \<and> p_user_id p = uid then form_columns fd st p else p)
                   (pitches s))" "p_ai_processing_status q = completed" for q
  proof -
    from that(1) obtain p where p: "p \<in> set (pitches s)"
        "q = (if p_id p = d \<and> p_user_id p = uid then form_columns fd st p else p)"
      by auto
    then have "p_id q = p_id p" "p_ai_processing_status q = p_ai_processing_status p"
      by (auto simp: form_columns_def)
    with p(1) that(2) assms show ?thesis
      by (auto simp: feedback_invariant_def)
  qed
  with assms Some show ?thesis
    by (simp add: write_pitch_def feedback_invariant_def)
qed

lemma pitches_insert_vote:
  "insert_vote uid r s = Inr s' \<Longrightarrow> pitches s' = pitches s \<and> ai_feedback s' = ai_feedback s"
  by (auto simp: insert_vote_def split: if_splits)

lemma feedback_invariant_detail_vote:
  assumes "feedback_invariant s"
  shows "feedback_invariant (PitchDetailView_handleVote user pitchId pitch voting voteType s)"
proof -
  have "pitches (PitchDetailView_handleVote user pitchId pitch voting voteType s) = pitches s
      \<and> ai_feedback (PitchDetailView_handleVote user pitchId pitch voting voteType s) = ai_feedback s"
    by (auto simp: PitchDetailView_handleVote_def update_vote_def
             dest: pitches_insert_vote split: option.splits sum.splits)
  with assms show ?thesis by (simp add: feedback_invariant_def)
qed

lemma feedback_invariant_feed_vote:
  assumes "feedback_invariant s"
  shows "feedback_invariant (snd (DiscoverFeed_handleVote user fs voteType s))"
proof -
  have "pitches (snd (DiscoverFeed_handleVote user fs voteType s)) = pitches s
      \<and> ai_feedback (snd (DiscoverFeed_handleVote user fs voteType s)) = ai_feedback s"
    by (auto simp: DiscoverFeed_handleVote_def
             dest: pitches_insert_vote split: option.splits sum.splits)
  with assms show ?thesis by (simp add: feedback_invariant_def)
qed

lemma backfill_keeps:
  "p_id (backfill_failed s (backfill_completed s p)) = p_id p
   \<and> p_user_id (backfill_failed s (backfill_completed s p)) = p_user_id p"
  by (simp add: backfill_failed_def backfill_completed_def has_feedback_def)

lemma backfill_completed_only_with_feedback:
  assumes "p_ai_processing_status (backfill_failed s (backfill_completed s p)) = completed"
  shows "p_ai_processing_status p = completed \<or> has_feedback s p"
  using assms
  by (auto simp: backfill_failed_def backfill_completed_def has_feedback_def split: if_splits)

lemma feedback_invariant_backfill:
  assumes "feedback_invariant s"
  shows "feedback_invariant (backfill_ai_status s)"
proof -
  have "p_id q \<in> set (map f_pitch_id (ai_feedback s))"
    if "q \<in> set (map (backfill_failed s) (map (backfill_completed s) (pitches s)))"
      "p_ai_processing_status q = completed" for q
  proof -
    from that(1) obtain p where p: "p \<in> set (pitches s)"
        "q = backfill_failed s (backfill_completed s p)"
      by auto
    from backfill_completed_only_with_feedback [of s p] that(2) p(2)
    have "p_ai_processing_status p = completed \<or> has_feedback s p"
      by simp
    with p(1) assms have "p_id p \<in> set (map f_pitch_id (ai_feedback s))"
      by (auto simp: feedback_invariant_def has_feedback_def)
    with p(2) backfill_keeps [of s p] show ?thesis
      by simp
  qed
  with assms show ?thesis
    by (simp add: feedback_invariant_def backfill_ai_status_def del: map_map)
qed

lemma reachable_feedback_invariant: "reachable s \<Longrightarrow> feedback_invariant s"
proof (induction rule: reachable.induct)
  case start
  show ?case by (simp add: feedback_invariant_def)
next
  case (form_write s new_id now uid draft_id fd st)
  then show ?case by (simp add: feedback_invariant_write)
next
  case (invoke s e req)
  show ?case
  proof (rule handler_preserves [where P = feedback_invariant, OF invoke.IH])
    fix pid and f :: "pitch_row \<Rightarrow> pitch_row" and s
    assume "feedback_invariant s"
      and "\<And>p. p_id (f p) = p_id p \<and> p_user_id (f p) = p_user_id p
              \<and> p_ai_processing_status (f p) \<noteq> completed"
    then show "feedback_invariant (update_pitch pid f s)"
      by (intro feedback_invariant_update) simp_all
  next
    fix pid fb and f :: "pitch_row \<Rightarrow> pitch_row" and s
    assume "feedback_invariant s" "pid \<notin> set (map f_pitch_id (ai_feedback s))"
      and "\<And>p. p_id (f p) = p_id p \<and> p_user_id (f p) = p_user_id p"
    then show "feedback_invariant
           (update_pitch pid f (s\<lparr>ai_feedback := ai_feedback s @ [\<lparr>f_pitch_id = pid, f_feedback = fb\<rparr>]\<rparr>))"
      by (intro feedback_invariant_insert) simp_all
  qed
next
  case (detail_vote s user pitchId pitch voting voteType)
  then show ?case by (simp add: feedback_invariant_detail_vote)
next
  case (feed_vote s user fs voteType)
  then show ?case by (simp add: feedback_invariant_feed_vote)
next
  case (backfill s)
  then show ?case by (simp add: feedback_invariant_backfill)
qed

lemma count_le_one:
  "distinct (map f xs) \<Longrightarrow> length (filter (\<lambda>x. f x = k) xs) \<le> 1"
  by (induction xs) (auto simp: filter_empty_conv image_iff)

lemma count_eq_one:
  "distinct (map f xs) \<Longrightarrow> k \<in> set (map f xs) \<Longrightarrow> length (filter (\<lambda>x. f x = k) xs) = 1"
  by (induction xs) (auto simp: filter_empty_conv image_iff)

lemma votes_invariant_pitches:
  assumes "votes_invariant s" and "votes s' = votes s"
    and "map (\<lambda>p. (p_id p, p_user_id p)) (pitches s') = map (\<lambda>p. (p_id p, p_user_id p)) (pitches s)"
  shows "votes_invariant s'"
proof -
  from assms(3) have "set (map (\<lambda>p. (p_id p, p_user_id p)) (pitches s'))
       = set (map (\<lambda>p. (p_id p, p_user_id p)) (pitches s))"
    by simp
  then have owners: "(\<lambda>p. (p_id p, p_user_id p)) ` set (pitches s')
       = (\<lambda>p. (p_id p, p_user_id p)) ` set (pitches s)"
    by simp
  from assms(3) have "map fst (map (\<lambda>p. (p_id p, p_user_id p)) (pitches s'))
       = map fst (map (\<lambda>p. (p_id p, p_user_id p)) (pitches s))"
    by simp
  then have ids: "map p_id (pitches s') = map p_id (pitches s)"
    by (simp add: comp_def)
  have "p_user_id p \<noteq> v_user_id v"
    if "v \<in> set (votes s)" "p \<in> set (pitches s')" "p_id p = v_pitch_id v" for v p
  proof -
    from that(2) have "(p_id p, p_user_id p) \<in> (\<lambda>p. (p_id p, p_user_id p)) ` set (pitches s)"
      unfolding owners [symmetric] by (rule imageI)
    then obtain q where "q \<in> set (pitches s)" "p_id q = p_id p" "p_user_id q = p_user_id p"
      by auto
    with that(1,3) assms(1) show ?thesis
      by (auto simp: votes_invariant_def)
  qed
  with assms(1,2) ids show ?thesis
    by (simp add: votes_invariant_def)
qed

lemma owners_update_pitch:
  assumes "\<And>p. p_id (f p) = p_id p \<and> p_user_id (f p) = p_user_id p"
  shows "map (\<lambda>p. (p_id p, p_user_id p)) (pitches (update_pitch pid f s))
         = map (\<lambda>p. (p_id p, p_user_id p)) (pitches s)"
  by (simp add: pitches_update_pitch assms)

lemma votes_invariant_update:
  assumes "votes_invariant s" and "\<And>p. p_id (f p) = p_id p \<and> p_user_id (f p) = p_user_id p"
  shows "votes_invariant (update_pitch pid f s)"
  by (rule votes_invariant_pitches [OF assms(1)])
     (simp_all add: owners_update_pitch [OF assms(2)])

lemma votes_invariant_feedback:
  assumes "votes_invariant s"
  shows "votes_invariant (s\<lparr>ai_feedback := x\<rparr>)"
  using assms by (simp add: votes_invariant_def)

lemma votes_invariant_write:
  assumes "votes_invariant s"
  shows "votes_invariant (write_pitch new_id now uid draft_id fd st s)"
proof (cases draft_id)
  case (Some d)
  show ?thesis
    by (rule votes_invariant_pitches [OF assms])
       (simp_all add: write_pitch_def Some form_columns_def)
next
  case None
  show ?thesis
  proof (cases "new_id \<in> set (map p_id (pitches s))")
    case True
    with None assms show ?thesis
      by (simp add: write_pitch_def insert_pitch_def)
  next
    case False
    from assms have fk: "\<And>v. v \<in> set (votes s) \<Longrightarrow> v_pitch_id v \<in> set (map p_id (pitches s))"
      by (simp add: votes_invariant_def)
    with False have "\<And>v. v \<in> set (votes s) \<Longrightarrow> v_pitch_id v \<noteq> new_id"
      by blast
    with None False assms show ?thesis
      by (auto simp: write_pitch_def insert_pitch_def votes_invariant_def)
  qed
qed

lemma insert_vote_Inr:
  assumes "insert_vote uid r s = Inr s'"
  shows "s' = s\<lparr>votes := votes s @ [r]\<rparr> \<and> v_user_id r = uid
     \<and> (\<forall>p \<in> set (pitches s). p_id p = v_pitch_id r \<longrightarrow> p_user_id p \<noteq> uid)
     \<and> vote_key r \<notin> set (map vote_key (votes s))
     \<and> v_pitch_id r \<in> set (map p_id (pitches s))"
  using assms by (auto simp: insert_vote_def split: if_splits)

lemma votes_invariant_insert:
  assumes "votes_invariant s" and "insert_vote uid r s = Inr s'"
  shows "votes_invariant s'"
  using assms(1) insert_vote_Inr [OF assms(2)]
  by (auto simp: votes_invariant_def)

lemma votes_invariant_update_vote:
  assumes "votes_invariant s"
  shows "votes_invariant (update_vote auth_uid pid uid vt s)"
proof -
  let ?g = "\<lambda>v. if auth_uid = v_user_id v \<and> v_pitch_id v = pid \<and> v_user_id v = uid
                           then v\<lparr>v_vote_type := vt\<rparr> else v"
  have k: "vote_key (?g v) = vote_key v" for v
    by (simp add: vote_key_def)
  have keys: "map vote_key (map ?g (votes s)) = map vote_key (votes s)"
    by (simp add: k comp_def)
  have "v_pitch_id w \<in> set (map p_id (pitches s))
        \<and> (\<forall>p \<in> set (pitches s). p_id p = v_pitch_id w \<longrightarrow> p_user_id p \<noteq> v_user_id w)"
    if "w \<in> set (map ?g (votes s))" for w
  proof -
    from that obtain v where v: "v \<in> set (votes s)" "w = ?g v"
      by auto
    then have "v_pitch_id w = v_pitch_id v" "v_user_id w = v_user_id v"
      by (auto split: if_splits)
    with v(1) assms show ?thesis
      by (auto simp: votes_invariant_def)
  qed
  with assms keys show ?thesis
    by (simp add: votes_invariant_def update_vote_def del: map_map)
qed

lemma votes_invariant_detail_vote:
  assumes "votes_invariant s"
  shows "votes_invariant (PitchDetailView_handleVote user pitchId pitch voting voteType s)"
  using assms
  by (auto simp: PitchDetailView_handleVote_def votes_invariant_update_vote
           intro: votes_invariant_insert split: option.splits sum.splits)

lemma votes_invariant_feed_vote:
  assumes "votes_invariant s"
  shows "votes_invariant (snd (DiscoverFeed_handleVote user fs voteType s))"
  using assms
  by (auto simp: DiscoverFeed_handleVote_def
           intro: votes_invariant_insert split: option.splits sum.splits)

lemma votes_invariant_backfill:
  assumes "votes_invariant s"
  shows "votes_invariant (backfill_ai_status s)"
  by (rule votes_invariant_pitches [OF assms])
     (simp_all add: backfill_ai_status_def backfill_keeps)

lemma reachable_votes_invariant: "reachable s \<Longrightarrow> votes_invariant s"
proof (induction rule: reachable.induct)
  case start
  show ?case by (simp add: votes_invariant_def)
next
  case (form_write s new_id now uid draft_id fd st)
  then show ?case by (simp add: votes_invariant_write)
next
  case (invoke s e req)
  show ?case
  proof (rule handler_preserves [where P = votes_invariant, OF invoke.IH])
    fix pid and f :: "pitch_row \<Rightarrow> pitch_row" and s
    assume "votes_invariant s"
      and "\<And>p. p_id (f p) = p_id p \<and> p_user_id (f p) = p_user_id p
              \<and> p_ai_processing_status (f p) \<noteq> completed"
    then show "votes_invariant (update_pitch pid f s)"
      by (intro votes_invariant_update) simp_all
  next
    fix pid fb and f :: "pitch_row \<Rightarrow> pitch_row" and s
    assume "votes_invariant s" "pid \<notin> set (map f_pitch_id (ai_feedback s))"
      and "\<And>p. p_id (f p) = p_id p \<and> p_user_id (f p) = p_user_id p"
    then show "votes_invariant
           (update_pitch pid f (s\<lparr>ai_feedback := ai_feedback s @ [\<lparr>f_pitch_id = pid, f_feedback = fb\<rparr>]\<rparr>))"
      by (intro votes_invariant_update votes_invariant_feedback) simp_all
  qed
next
  case (detail_vote s user pitchId pitch voting voteType)
  then show ?case by (simp add: votes_invariant_detail_vote)
next
  case (feed_vote s user fs voteType)
  then show ?case by (simp add: votes_invariant_feed_vote)
next
  case (backfill s)
  then show ?case by (simp add: votes_invariant_backfill)
qed

lemma voted_store_eq:
  "voted_store = demo_store\<lparr>votes := [\<lparr>v_pitch_id = ''p1'', v_user_id = ''bob'', v_vote_type = interesting\<rparr>]\<rparr>"
  by (simp add: voted_store_def PitchDetailView_handleVote_def loadPitchDetail_def maybeSingle_def
       visible_pitch_def demo_store_def demo_pitch_def insert_vote_def vote_key_def count_votes_def)

lemma reachable_voted_store: "reachable voted_store"
  unfolding voted_store_def by (rule reachable.detail_vote [OF reachable_demo_store])

section \<open>Lemmas on voting\<close>

lemma maybeSingle_distinct:
  assumes "distinct (map f xs)"
  shows "maybeSingle (filter (\<lambda>x. f x = k) xs) = None \<longleftrightarrow> filter (\<lambda>x. f x = k) xs = []"
proof -
  have "length (filter (\<lambda>x. f x = k) xs) \<le> 1"
    by (rule count_le_one [OF assms])
  then show ?thesis
    by (cases "filter (\<lambda>x. f x = k) xs") (auto simp: maybeSingle_def split: list.splits)
qed

lemma loadPitchDetail_Some:
  assumes "loadPitchDetail uid pid s = Some pd"
  shows "d_pitch pd \<in> set (pitches s) \<and> p_id (d_pitch pd) = pid
    \<and> filter (\<lambda>p. p_id p = pid \<and> visible_pitch uid p) (pitches s) = [d_pitch pd]
    \<and> d_user_vote pd = map_option v_vote_type
         (maybeSingle (filter (\<lambda>v. v_pitch_id v = pid \<and> v_user_id v = uid) (votes s)))"
proof -
  from assms obtain pitchData where
    m: "maybeSingle (filter (\<lambda>p. p_id p = pid \<and> visible_pitch uid p) (pitches s)) = Some pitchData"
    and pd: "d_pitch pd = pitchData"
       "d_user_vote pd = map_option v_vote_type
         (maybeSingle (filter (\<lambda>v. v_pitch_id v = pid \<and> v_user_id v = uid) (votes s)))"
    by (auto simp: loadPitchDetail_def split: option.splits)
  from m have f: "filter (\<lambda>p. p_id p = pid \<and> visible_pitch uid p) (pitches s) = [pitchData]"
    by (auto simp: maybeSingle_def split: list.splits)
  then have "pitchData \<in> set (filter (\<lambda>p. p_id p = pid \<and> visible_pitch uid p) (pitches s))"
    by simp
  then have "pitchData \<in> set (pitches s) \<and> p_id pitchData = pid"
    by simp
  with f pd show ?thesis by simp
qed

lemma not_own_pitch:
  assumes "loadPitchDetail uid pid s = Some pd" and "p_user_id (d_pitch pd) \<noteq> uid"
  shows "\<not> (\<exists>p \<in> set (pitches s). p_id p = pid \<and> p_user_id p = uid)"
proof
  assume "\<exists>p \<in> set (pitches s). p_id p = pid \<and> p_user_id p = uid"
  then obtain p where p: "p \<in> set (pitches s)" "p_id p = pid" "p_user_id p = uid"
    by blast
  then have "p \<in> set (filter (\<lambda>p. p_id p = pid \<and> visible_pitch uid p) (pitches s))"
    by (simp add: visible_pitch_def)
  with loadPitchDetail_Some [OF assms(1)] have "p = d_pitch pd"
    by simp
  with p(3) assms(2) show False by simp
qed

lemma first_vote_accepted:
  assumes "loadPitchDetail uid pid s = Some pd" and "p_user_id (d_pitch pd) \<noteq> uid"
    and "filter (\<lambda>v. vote_key v = (pid, uid)) (votes s) = []"
  shows "insert_vote uid \<lparr>v_pitch_id = pid, v_user_id = uid, v_vote_type = vt\<rparr> s
         = Inr (s\<lparr>votes := votes s @ [\<lparr>v_pitch_id = pid, v_user_id = uid, v_vote_type = vt\<rparr>]\<rparr>)"
proof -
  from assms(3) have "(pid, uid) \<notin> set (map vote_key (votes s))"
    by (auto simp: filter_empty_conv)
  moreover from loadPitchDetail_Some [OF assms(1)] have "pid \<in> set (map p_id (pitches s))"
    by force
  ultimately show ?thesis
    using not_own_pitch [OF assms(1,2)]
    by (simp add: insert_vote_def vote_key_def)
qed

lemma second_vote_refused:
  assumes "filter (\<lambda>v. vote_key v = (pid, uid)) (votes s) \<noteq> []"
  shows "\<exists>err. insert_vote uid \<lparr>v_pitch_id = pid, v_user_id = uid, v_vote_type = vt\<rparr> s = Inl err"
proof -
  from assms obtain v where "v \<in> set (votes s)" "vote_key v = (pid, uid)"
    by (auto simp: filter_empty_conv)
  then have "(pid, uid) \<in> set (map vote_key (votes s))"
    by (metis image_eqI set_map)
  then show ?thesis
    by (simp add: insert_vote_def vote_key_def)
qed

lemma demo_detail_loaded: "loadPitchDetail ''bob'' ''p1'' demo_store = Some demo_detail"
  by (simp add: loadPitchDetail_def maybeSingle_def visible_pitch_def demo_store_def
       demo_pitch_def count_votes_def demo_detail_def)

lemma voted_detail_loaded: "loadPitchDetail ''bob'' ''p1'' voted_store = Some voted_detail"
  by (simp add: voted_store_eq loadPitchDetail_def maybeSingle_def visible_pitch_def
       demo_store_def demo_pitch_def count_votes_def voted_detail_def)

section \<open>Lemmas on the word count\<close>

lemma empty_piece_in_tail:
  "[] \<in> set (tl (split_ws s)) \<Longrightarrow> s \<noteq> [] \<and> is_white_space (last s)"
proof (induction s rule: split_ws.induct)
  case 1
  then show ?case by simp
next
  case (2 c cs)
  show ?case
  proof (cases "is_white_space c")
    case False
    with "2.prems" have "[] \<in> set (tl (split_ws cs))"
      by (auto split: list.splits)
    with "2.IH"(4) [OF False] have "cs \<noteq> [] \<and> is_white_space (last cs)"
      by simp
    then show ?thesis by simp
  next
    case True
    show ?thesis
    proof (cases cs)
      case Nil
      with True show ?thesis by simp
    next
      case (Cons d ds)
      show ?thesis
      proof (cases "is_white_space d")
        case d: True
        with True Cons "2.prems" have "[] \<in> set (tl (split_ws cs))"
          by simp
        with "2.IH"(2) [OF True Cons d] have "cs \<noteq> [] \<and> is_white_space (last cs)"
          by simp
        then show ?thesis by simp
      next
        case d: False
        with True Cons "2.prems" have "[] \<in> set (split_ws cs)"
          by simp
        with Cons d have "[] \<in> set (tl (split_ws cs))"
          by (auto split: list.splits)
        with "2.IH"(3) [OF True Cons d] have "cs \<noteq> [] \<and> is_white_space (last cs)"
          by simp
        then show ?thesis by simp
      qed
    qed
  qed
qed

lemma no_empty_piece:
  assumes "s \<noteq> []" and "\<not> is_white_space (hd s)" and "\<not> is_white_space (last s)"
  shows "[] \<notin> set (split_ws s)"
proof
  assume e: "[] \<in> set (split_ws s)"
  from assms(1) obtain c cs where s: "s = c # cs" by (cases s) auto
  with assms(2) have "\<not> is_white_space c" by simp
  with e s have "[] \<in> set (tl (split_ws s))"
    by (auto split: list.splits)
  from empty_piece_in_tail [OF this] assms(3) show False by simp
qed

lemma last_dropWhile:
  "dropWhile P xs \<noteq> [] \<Longrightarrow> last (dropWhile P xs) = last xs"
  by (induction xs) (auto split: if_splits)

lemma trim_ends:
  assumes "trim s \<noteq> []"
  shows "\<not> is_white_space (hd (trim s)) \<and> \<not> is_white_space (last (trim s))"
proof -
  let ?a = "dropWhile is_white_space s"
  let ?b = "dropWhile is_white_space (rev ?a)"
  from assms have b: "?b \<noteq> []" by (simp add: trim_def)
  have a: "?a \<noteq> []"
    using b by (cases ?a) simp_all
  have "last (trim s) = hd ?b"
    using b by (simp add: trim_def last_rev)
  moreover have "\<not> is_white_space (hd ?b)"
    using b by (rule hd_dropWhile)
  moreover have "hd (trim s) = last ?b"
    using b by (simp add: trim_def hd_rev)
  moreover have "last ?b = last (rev ?a)"
    using b by (rule last_dropWhile)
  moreover have "last (rev ?a) = hd ?a"
    using a by (simp add: last_rev)
  moreover have "\<not> is_white_space (hd ?a)"
    using a by (rule hd_dropWhile)
  ultimately show ?thesis by simp
qed

lemma wordCount_cases:
  "length (split_ws (trim s)) =
     (if trim s = [] then 1 else length (filter (\<lambda>word. length word > 0) (split_ws (trim s))))"
proof (cases "trim s = []")
  case True
  then show ?thesis by simp
next
  case False
  from no_empty_piece [OF False] trim_ends [OF False]
  have "[] \<notin> set (split_ws (trim s))" by simp
  then have "filter (\<lambda>word. length word > 0) (split_ws (trim s)) = split_ws (trim s)"
    by (auto simp: filter_id_conv)
  with False show ?thesis by simp
qed

lemma demo_trim: "trim (elevator_pitch demo_form) = [73, 109, 97, 103, 105, 110, 101]"
  by (simp add: demo_form_def utf16_def trim_def is_white_space_def)

lemma demo_word_count: "getWordCount demo_form_state = 1"
  by (simp add: getWordCount_def demo_form_state_def demo_trim is_white_space_def)

section \<open>Lemmas on the leaderboard\<close>

lemma mset_insert_by: "mset (insert_by cmp x xs) = add_mset x (mset xs)"
  by (induction xs) auto

lemma mset_sort_by: "mset (sort_by cmp xs) = mset xs"
  unfolding sort_by_def by (induction xs) (auto simp: mset_insert_by)

lemma set_insert_by: "set (insert_by cmp x xs) = insert x (set xs)"
  by (induction xs) auto

lemma sorted_insert_by:
  assumes "sorted_wrt (\<lambda>a b. votes_of a \<ge> votes_of b) xs"
  shows "sorted_wrt (\<lambda>a b. votes_of a \<ge> votes_of b) (insert_by by_interesting x xs)"
  using assms
  by (induction xs) (auto simp: set_insert_by by_interesting_def votes_of_def)

lemma sorted_sort_by:
  "sorted_wrt (\<lambda>a b. votes_of a \<ge> votes_of b) (sort_by by_interesting xs)"
  unfolding sort_by_def by (induction xs) (auto intro: sorted_insert_by)

lemma length_with_ranks: "length (with_ranks i xs) = length xs"
  by (induction i xs rule: with_ranks.induct) auto

lemma ranks_with_ranks: "map lb_rank (with_ranks i xs) = [i + 1 ..< i + 1 + length xs]"
  by (induction i xs rule: with_ranks.induct) (auto simp: upt_rec)

lemma ids_with_ranks: "map lb_id (with_ranks i xs) = map lb_id xs"
  by (induction i xs rule: with_ranks.induct) auto

lemma votes_with_ranks: "map votes_of (with_ranks i xs) = map votes_of xs"
  by (induction i xs rule: with_ranks.induct) (auto simp: votes_of_def)

lemma sorted_with_ranks:
  "sorted_wrt (\<lambda>a b. votes_of a \<ge> votes_of b) (with_ranks i xs)
   \<longleftrightarrow> sorted_wrt (\<lambda>a b. votes_of a \<ge> votes_of b) xs"
proof -
  have "sorted_wrt (\<lambda>a b. votes_of a \<ge> votes_of b) ys \<longleftrightarrow> sorted_wrt (\<ge>) (map votes_of ys)" for ys
    by (simp add: sorted_wrt_map)
  then show ?thesis by (simp only: votes_with_ranks)
qed

lemma take_upt_min: "take n [i ..< i + m] = [i ..< i + min n m]"
proof (cases "n \<le> m")
  case True
  then have "i + n \<le> i + m" by simp
  then have "take n [i ..< i + m] = [i ..< i + n]" by (rule take_upt)
  with True show ?thesis by (simp only: min.absorb1)
next
  case False
  then have "length [i ..< i + m] \<le> n" by simp
  then have "take n [i ..< i + m] = [i ..< i + m]" by (rule take_all)
  with False show ?thesis by (simp only: min.absorb2 not_le [THEN iffD1, THEN less_imp_le])
qed

lemma passes_filter_window: "passes_filter clock f p \<longleftrightarrow> published_in_window clock f p"
  by (cases f) (simp_all add: passes_filter_def)

lemma set_sort_by: "set (sort_by cmp xs) = set xs"
  unfolding sort_by_def by (induction xs) (auto simp: set_insert_by)

lemma length_sort_by: "length (sort_by cmp xs) = length xs"
  using mset_sort_by [of cmp xs] by (metis size_mset)

lemma with_ranks_entry:
  "e \<in> set (with_ranks i xs) \<Longrightarrow>
     \<exists>x \<in> set xs. lb_id e = lb_id x \<and> lb_vote_counts e = lb_vote_counts x"
  by (induction i xs rule: with_ranks.induct) auto

lemma count_votes_for:
  "vc_interesting (count_votes pid s) = votes_for s interesting pid
   \<and> vc_needs_work (count_votes pid s) = votes_for s needs_work pid"
  by (simp add: count_votes_def)

lemma board_entry:
  assumes "e \<in> set (with_ranks i (sort_by cmp (map (with_data s) pitchData)))"
  shows "lb_id e \<in> set (map p_id pitchData) \<and> lb_vote_counts e = count_votes (lb_id e) s"
proof -
  from with_ranks_entry [OF assms] obtain x
    where x: "x \<in> set (sort_by cmp (map (with_data s) pitchData))"
      "lb_id e = lb_id x" "lb_vote_counts e = lb_vote_counts x"
    by blast
  from x(1) obtain pitch where p: "pitch \<in> set pitchData" "x = with_data s pitch"
    by (auto simp: set_sort_by)
  with x(2,3) show ?thesis
    by (simp add: with_data_def)
qed

lemma board_rows_answer: "answers_query board_clock filter_week board_store board_rows"
  by (simp only: answers_query_def board_rows_def mset_rev)

lemma board_passing:
  "map p_id (filter (published_in_window board_clock filter_week) (pitches board_store))
   = [''02'', ''03'', ''04'', ''05'', ''06'', ''07'', ''08'', ''09'', ''10'', ''11'', ''12'',
      ''13'', ''14'', ''15'', ''16'', ''17'', ''18'', ''19'', ''20'', ''21'', ''22'']"
  by (simp add: board_store_def board_pitch_def board_clock_def)

lemma board_shown:
  "map (\<lambda>e. (lb_id e, lb_rank e, vc_interesting (lb_vote_counts e)))
     (loadLeaderboard board_store board_rows)
   = [(''22'', 1, 2), (''10'', 2, 1), (''21'', 3, 0), (''20'', 4, 0), (''19'', 5, 0),
      (''18'', 6, 0), (''17'', 7, 0), (''16'', 8, 0), (''15'', 9, 0), (''14'', 10, 0),
      (''13'', 11, 0), (''12'', 12, 0), (''11'', 13, 0), (''09'', 14, 0), (''08'', 15, 0),
      (''07'', 16, 0), (''06'', 17, 0), (''05'', 18, 0), (''04'', 19, 0), (''03'', 20, 0)]"
  by (simp add: loadLeaderboard_def board_rows_def passes_filter_def board_store_def
        board_pitch_def board_vote_def board_clock_def with_data_def count_votes_def
        sort_by_def by_interesting_def maybeSingle_def)

section \<open>Lemmas on the share of positive votes\<close>

text \<open>23 interesting votes of 40: the quotient is the number just below 0.575, its product
  with 100 the number just below 57.5, and the share shown is 57.\<close>

lemma quotient_23_40: "to_double 23 40 = (5179139571476070, 9007199254740992)"
proof -
  have "bit_length 23 = 5" "bit_length 40 = 6"
    by (simp_all add: bit_length.simps)
  then have "binary_exponent 23 40 = -1"
    by (simp add: binary_exponent_def at_least_power_def)
  then show ?thesis
    by (simp add: to_double_def nearest_even_def)
qed

lemma product_with_100:
  "to_double 517913957147607000 9007199254740992 = (8092405580431359, 140737488355328)"
proof -
  have "bit_length 517913957147607000 = 59" "bit_length 9007199254740992 = 54"
    by (simp_all add: bit_length.simps)
  then have "binary_exponent 517913957147607000 9007199254740992 = 5"
    by (simp add: binary_exponent_def at_least_power_def)
  then show ?thesis
    by (simp add: to_double_def nearest_even_def)
qed

lemma share_of_23_and_17:
  "percent_positive \<lparr>vc_interesting = 23, vc_needs_work = 17\<rparr> = Fraction 57 1"
  by (simp add: percent_positive_def percent_denominator_def or_one_def js_divide_def
        quotient_23_40 product_with_100)

section \<open>The claims\<close>

text \<open>
  C9 (as amended). A request other than the CORS preflight whose body is read and
  carries no pitch id (absent or empty) is answered 400 with the message that the id is
  required; one whose pitch id matches no row of \<open>pitches\<close> is answered 404 with the
  message that the pitch was not found; one whose body cannot be read (no body, not
  JSON, the JSON value \<open>null\<close>) is answered 500 with the message of the error, or the
  fixed text "Failed to generate feedback" when it has none. In all three the store is
  left as it was.
\<close>

theorem C9_request_answers:
  assumes "req_method req \<noteq> ''OPTIONS''"
  shows "((req_body req = Json None \<or> req_body req = Json (Some [])) \<longrightarrow>
            handler e req s
              = (\<lparr>r_status = 400, r_body = ErrorBody ''pitch_id is required''\<rparr>, s))
    \<and> (\<forall>pid. req_body req = Json (Some pid) \<and> pid \<noteq> [] \<and> pid \<notin> set (map p_id (pitches s)) \<longrightarrow>
            handler e req s = (\<lparr>r_status = 404, r_body = ErrorBody ''Pitch not found''\<rparr>, s))
    \<and> (\<forall>m. req_body req = Unparsable m \<longrightarrow>
            handler e req s
              = (\<lparr>r_status = 500,
                  r_body = ErrorBody (if m = [] then ''Failed to generate feedback'' else m)\<rparr>, s))"
proof (intro conjI impI allI)
  assume "req_body req = Json None \<or> req_body req = Json (Some [])"
  with assms show "handler e req s
      = (\<lparr>r_status = 400, r_body = ErrorBody ''pitch_id is required''\<rparr>, s)"
    by (auto simp: handler_def)
next
  fix pid
  assume a: "req_body req = Json (Some pid) \<and> pid \<noteq> [] \<and> pid \<notin> set (map p_id (pitches s))"
  then have "filter (\<lambda>p. p_id p = pid) (pitches s) = []"
    by (auto simp: filter_empty_conv)
  then have none: "select_single pid s = None"
    by (simp add: select_single_def)
  from a have same: "mark_processing e pid s = s"
    unfolding mark_processing_def by (intro update_pitch_no_row) simp
  from assms a show "handler e req s
      = (\<lparr>r_status = 404, r_body = ErrorBody ''Pitch not found''\<rparr>, s)"
    by (simp add: handler_def generate_for_def same none)
next
  fix m
  assume "req_body req = Unparsable m"
  with assms show "handler e req s
      = (\<lparr>r_status = 500,
          r_body = ErrorBody (if m = [] then ''Failed to generate feedback'' else m)\<rparr>, s)"
    by (simp add: handler_def catch_block_def message_or_default_def)
qed

theorem C9_witness:
  "handler demo_env (post None) demo_store
     = (\<lparr>r_status = 400, r_body = ErrorBody ''pitch_id is required''\<rparr>, demo_store)
   \<and> handler demo_env (post (Some [])) demo_store
     = (\<lparr>r_status = 400, r_body = ErrorBody ''pitch_id is required''\<rparr>, demo_store)
   \<and> handler demo_env (post (Some ''p2'')) demo_store
     = (\<lparr>r_status = 404, r_body = ErrorBody ''Pitch not found''\<rparr>, demo_store)
   \<and> handler demo_env \<lparr>req_method = ''POST'', req_body = Unparsable []\<rparr> demo_store
     = (\<lparr>r_status = 500, r_body = ErrorBody ''Failed to generate feedback''\<rparr>, demo_store)"
proof -
  have m: "req_method (post x) \<noteq> ''OPTIONS''" for x
    by (simp add: post_def)
  have m': "req_method \<lparr>req_method = ''POST'', req_body = Unparsable []\<rparr> \<noteq> ''OPTIONS''"
    by simp
  have absent: "''p2'' \<notin> set (map p_id (pitches demo_store))"
    by (simp add: demo_store_def demo_pitch_def)
  from C9_request_answers [OF m, of None demo_env demo_store]
       C9_request_answers [OF m, of "Some []" demo_env demo_store]
       C9_request_answers [OF m, of "Some ''p2''" demo_env demo_store]
       C9_request_answers [OF m', of demo_env demo_store]
       absent
  show ?thesis
    by (simp add: post_def)
qed

text \<open>
  The claim as stated fails for a request with no body at all: it lacks a pitch id, the
  read of the body throws, and the answer is 500 with the message of that error.
\<close>

theorem C9_counterexample:
  "req_method \<lparr>req_method = ''POST'', req_body = Unparsable ''Unexpected end of JSON input''\<rparr>
     \<noteq> ''OPTIONS''
   \<and> handler demo_env
        \<lparr>req_method = ''POST'', req_body = Unparsable ''Unexpected end of JSON input''\<rparr> demo_store
     = (\<lparr>r_status = 500, r_body = ErrorBody ''Unexpected end of JSON input''\<rparr>, demo_store)"
  by (simp add: handler_def catch_block_def message_or_default_def)

text \<open>
  C4 (as amended). When the endpoint fails after the pitch was found, because the call
  to the API throws, answers with a status that is not ok, or answers with something
  that is not the JSON asked for, or because the insert of the feedback row is refused,
  the pitch is left with status failed, the message of the error in
  \<open>ai_processing_error\<close> and a completion time, and the caller gets status 500 with a body
  carrying that same message; both are the fixed text "Failed to generate feedback" only
  when the error has no message. No feedback row is added.
\<close>

theorem C4_failure_is_recorded:
  assumes "req_method req \<noteq> ''OPTIONS''" and "req_body req = Json (Some pid)" and "pid \<noteq> []"
    and "select_single pid s = Some p"
    and "(\<not> no_api_key e \<and>
            (openai e = FetchThrows m \<or> openai e = Malformed m \<or>
             (\<exists>code errorText. openai e = NotOk code errorText \<and>
                m = ''OpenAI API error: '' @ digit_chars code @ '' - '' @ errorText)))
         \<or> (\<exists>fb insertError.
               (if no_api_key e then fb = mockFeedback else openai e = Parsed fb) \<and>
               insert_feedback \<lparr>f_pitch_id = pid, f_feedback = fb\<rparr> (mark_processing e pid s)
                 = Inl insertError \<and>
               m = db_message e insertError)"
  shows "fst (handler e req s)
      = \<lparr>r_status = 500,
          r_body = ErrorBody (if m = [] then ''Failed to generate feedback'' else m)\<rparr>
    \<and> select_single pid (snd (handler e req s))
        = Some (p\<lparr>p_ai_processing_status := failed,
                  p_ai_processing_started_at := Some (started_now e),
                  p_ai_processing_error :=
                    Some (if m = [] then ''Failed to generate feedback'' else m),
                  p_ai_processing_completed_at := Some (completed_now e)\<rparr>)
    \<and> ai_feedback (snd (handler e req s)) = ai_feedback s"
proof -
  let ?s1 = "mark_processing e pid s"
  note found = found_after_mark [OF assms(4), of e]
  have h: "handler e req s = generate_for e pid ?s1"
    by (rule handler_found [OF assms(1-3)])
  have "generate_for e pid ?s1 = catch_block e (Some pid) m ?s1"
    using assms(5)
  proof (elim disjE conjE exE)
    assume "\<not> no_api_key e" "openai e = FetchThrows m"
    then show ?thesis by (simp add: generate_for_def found)
  next
    assume "\<not> no_api_key e" "openai e = Malformed m"
    then show ?thesis by (simp add: generate_for_def found)
  next
    fix code errorText
    assume "\<not> no_api_key e" "openai e = NotOk code errorText"
      "m = ''OpenAI API error: '' @ digit_chars code @ '' - '' @ errorText"
    then show ?thesis by (simp add: generate_for_def found)
  next
    fix fb insertError
    assume a: "if no_api_key e then fb = mockFeedback else openai e = Parsed fb"
      "insert_feedback \<lparr>f_pitch_id = pid, f_feedback = fb\<rparr> ?s1 = Inl insertError"
      "m = db_message e insertError"
    have "generate_for e pid ?s1 = store_feedback e pid fb ?s1"
      using a(1) by (cases "no_api_key e") (simp_all add: generate_for_def found)
    then show ?thesis
      by (simp add: store_feedback_def a(2,3))
  qed
  with h have "handler e req s = catch_block e (Some pid) m ?s1"
    by simp
  then show ?thesis
    using catch_block_found [OF assms(4,3), of e m] by (simp add: message_or_default_def)
qed


theorem C4_witness:
  "fst (handler (keyed_env (NotOk 401 ''unauthorized'')) (post (Some ''p1'')) demo_store)
     = \<lparr>r_status = 500, r_body = ErrorBody ''OpenAI API error: 401 - unauthorized''\<rparr>
   \<and> map_option p_ai_processing_error
        (select_single ''p1''
           (snd (handler (keyed_env (NotOk 401 ''unauthorized'')) (post (Some ''p1'')) demo_store)))
     = Some (Some ''OpenAI API error: 401 - unauthorized'')
   \<and> fst (handler (keyed_env (FetchThrows [])) (post (Some ''p1'')) demo_store)
     = \<lparr>r_status = 500, r_body = ErrorBody ''Failed to generate feedback''\<rparr>
   \<and> map_option p_ai_processing_error
        (select_single ''p1''
           (snd (handler (keyed_env (FetchThrows [])) (post (Some ''p1'')) demo_store)))
     = Some (Some ''Failed to generate feedback'')
   \<and> fst (handler demo_env (post (Some ''p1'')) completed_store)
     = \<lparr>r_status = 500, r_body = ErrorBody ''database error''\<rparr>"
proof -
  have sel: "select_single ''p1'' demo_store = Some demo_pitch"
    by (simp add: select_single_def demo_store_def demo_pitch_def)
  have m: "req_method (post (Some ''p1'')) \<noteq> ''OPTIONS''"
          "req_body (post (Some ''p1'')) = Json (Some ''p1'')" "''p1'' \<noteq> []"
    by (simp_all add: post_def)
  have k: "\<not> no_api_key (keyed_env x)" for x
    by (simp add: keyed_env_def no_api_key_def)
  have o: "openai (keyed_env x) = x" for x
    by (simp add: keyed_env_def)
  have 1: "fst (handler (keyed_env (NotOk 401 ''unauthorized'')) (post (Some ''p1'')) demo_store)
     = \<lparr>r_status = 500, r_body = ErrorBody ''OpenAI API error: 401 - unauthorized''\<rparr>
     \<and> map_option p_ai_processing_error
        (select_single ''p1''
           (snd (handler (keyed_env (NotOk 401 ''unauthorized'')) (post (Some ''p1'')) demo_store)))
       = Some (Some ''OpenAI API error: 401 - unauthorized'')"
    using C4_failure_is_recorded [OF m sel, of "keyed_env (NotOk 401 ''unauthorized'')"
            "''OpenAI API error: 401 - unauthorized''"]
    by (simp add: k o digit_chars_401)
  have 2: "fst (handler (keyed_env (FetchThrows [])) (post (Some ''p1'')) demo_store)
     = \<lparr>r_status = 500, r_body = ErrorBody ''Failed to generate feedback''\<rparr>
     \<and> map_option p_ai_processing_error
        (select_single ''p1''
           (snd (handler (keyed_env (FetchThrows [])) (post (Some ''p1'')) demo_store)))
       = Some (Some ''Failed to generate feedback'')"
    using C4_failure_is_recorded [OF m sel, of "keyed_env (FetchThrows [])" "[]"]
    by (simp add: k o)
  have sel': "select_single ''p1'' completed_store
     = Some (demo_pitch\<lparr>p_ai_processing_status := completed,
                  p_ai_processing_started_at := Some 2000,
                  p_ai_processing_completed_at := Some 3000\<rparr>)"
    by (simp add: completed_store_eq select_single_def demo_pitch_def)
  have 3: "fst (handler demo_env (post (Some ''p1'')) completed_store)
     = \<lparr>r_status = 500, r_body = ErrorBody ''database error''\<rparr>"
  proof -
    have "no_api_key demo_env"
      by (simp add: demo_env_def no_api_key_def)
    moreover have "insert_feedback \<lparr>f_pitch_id = ''p1'', f_feedback = mockFeedback\<rparr>
             (mark_processing demo_env ''p1'' completed_store) = Inl unique_violation"
      by (simp add: completed_store_eq insert_feedback_def mark_processing_def mockFeedback_def)
    moreover have dm: "db_message demo_env unique_violation = ''database error''"
      by (simp add: demo_env_def)
    ultimately show ?thesis
      using C4_failure_is_recorded [OF m sel', of demo_env "''database error''"]
      by simp
  qed
  from 1 2 3 show ?thesis by simp
qed

text \<open>
  The claim as stated fails in its last part: the body of the 500 is not a generic one
  but the text of the error at hand, the answer of the API included, and differs from
  one failure to the next.
\<close>

theorem C4_counterexample:
  "handler (keyed_env (NotOk 401 ''unauthorized'')) (post (Some ''p1'')) demo_store
     = (\<lparr>r_status = 500, r_body = ErrorBody ''OpenAI API error: 401 - unauthorized''\<rparr>,
        \<lparr>pitches =
           [demo_pitch\<lparr>p_ai_processing_status := failed,
              p_ai_processing_started_at := Some 2000,
              p_ai_processing_error := Some ''OpenAI API error: 401 - unauthorized'',
              p_ai_processing_completed_at := Some 3000\<rparr>],
         ai_feedback = [], votes = []\<rparr>)
   \<and> fst (handler (keyed_env (Malformed ''Unexpected end of JSON input'')) (post (Some ''p1''))
           demo_store)
     = \<lparr>r_status = 500, r_body = ErrorBody ''Unexpected end of JSON input''\<rparr>"
  by (simp add: run_defs digit_chars_401)

text \<open>
  C3 (as amended). When the endpoint is invoked for an existing pitch that has no
  feedback row yet and no API key is configured, it appends the fixed mock feedback
  (three strengths, three weaknesses, three recommendations, score 7) as the pitch's
  feedback row, leaves the pitch completed with its completion time set and its error
  cleared, and answers 200 with that feedback.
\<close>

theorem C3_mock_feedback_without_key:
  assumes "req_method req \<noteq> ''OPTIONS''" and "req_body req = Json (Some pid)" and "pid \<noteq> []"
    and "select_single pid s = Some p" and "no_api_key e"
    and "pid \<notin> set (map f_pitch_id (ai_feedback s))"
  shows "fst (handler e req s) = \<lparr>r_status = 200, r_body = SuccessBody mockFeedback\<rparr>
    \<and> ai_feedback (snd (handler e req s))
        = ai_feedback s @ [\<lparr>f_pitch_id = pid, f_feedback = mockFeedback\<rparr>]
    \<and> select_single pid (snd (handler e req s))
        = Some (p\<lparr>p_ai_processing_status := completed,
                  p_ai_processing_started_at := Some (started_now e),
                  p_ai_processing_completed_at := Some (completed_now e),
                  p_ai_processing_error := None\<rparr>)
    \<and> length (strengths mockFeedback) = 3 \<and> length (weaknesses mockFeedback) = 3
    \<and> length (recommendations mockFeedback) = 3 \<and> overall_score mockFeedback = 7"
proof -
  let ?s1 = "mark_processing e pid s"
  let ?row = "\<lparr>f_pitch_id = pid, f_feedback = mockFeedback\<rparr>"
  note found = found_after_mark [OF assms(4), of e]
  have "pid \<in> set (map p_id (pitches s))"
    using select_single_mem [OF assms(4)] by auto
  then have fk: "pid \<in> set (map p_id (pitches ?s1))"
    unfolding mark_processing_def by (subst ids_update_pitch) simp_all
  have ins: "insert_feedback ?row ?s1 = Inr (?s1\<lparr>ai_feedback := ai_feedback s @ [?row]\<rparr>)"
    using fk assms(6)
    by (simp add: insert_feedback_def mockFeedback_def mark_processing_def)
  have h: "handler e req s = store_feedback e pid mockFeedback ?s1"
    using assms(5) found by (simp add: handler_found [OF assms(1-3)] generate_for_def)
  have sel: "select_single pid
       (update_pitch pid
         (\<lambda>p. p\<lparr>p_ai_processing_status := completed,
                 p_ai_processing_completed_at := Some (completed_now e),
                 p_ai_processing_error := None\<rparr>)
         (?s1\<lparr>ai_feedback := ai_feedback s @ [?row]\<rparr>))
     = Some (p\<lparr>p_ai_processing_status := completed,
                  p_ai_processing_started_at := Some (started_now e),
                  p_ai_processing_completed_at := Some (completed_now e),
                  p_ai_processing_error := None\<rparr>)"
    by (subst select_single_update_same [where p = "p\<lparr>p_ai_processing_status := processing,
                p_ai_processing_started_at := Some (started_now e)\<rparr>"])
       (simp_all add: found)
  show ?thesis
    unfolding h store_feedback_def ins
    by (simp add: sel) (simp add: mockFeedback_def)
qed

theorem C3_witness:
  "fst (handler demo_env (post (Some ''p1'')) demo_store)
     = \<lparr>r_status = 200, r_body = SuccessBody mockFeedback\<rparr>
   \<and> ai_feedback (snd (handler demo_env (post (Some ''p1'')) demo_store))
     = [\<lparr>f_pitch_id = ''p1'', f_feedback = mockFeedback\<rparr>]
   \<and> map_option p_ai_processing_status
        (select_single ''p1'' (snd (handler demo_env (post (Some ''p1'')) demo_store)))
     = Some completed"
proof -
  have sel: "select_single ''p1'' demo_store = Some demo_pitch"
    by (simp add: select_single_def demo_store_def demo_pitch_def)
  have m: "req_method (post (Some ''p1'')) \<noteq> ''OPTIONS''"
          "req_body (post (Some ''p1'')) = Json (Some ''p1'')" "''p1'' \<noteq> []"
    by (simp_all add: post_def)
  have k: "no_api_key demo_env"
    by (simp add: demo_env_def no_api_key_def)
  have n: "''p1'' \<notin> set (map f_pitch_id (ai_feedback demo_store))"
    by (simp add: demo_store_def)
  show ?thesis
    using C3_mock_feedback_without_key [OF m sel k n]
    by (simp add: demo_store_def)
qed

text \<open>
  The claim as stated fails where the pitch already has a feedback row: the insert is
  refused, the caller gets 500 and the pitch is left failed.
\<close>

theorem C3_counterexample:
  "select_single ''p1'' completed_store \<noteq> None \<and> no_api_key demo_env
   \<and> fst (handler demo_env (post (Some ''p1'')) completed_store)
       = \<lparr>r_status = 500, r_body = ErrorBody ''database error''\<rparr>
   \<and> map p_ai_processing_status (pitches (snd (handler demo_env (post (Some ''p1'')) completed_store)))
       = [failed]
   \<and> ai_feedback (snd (handler demo_env (post (Some ''p1'')) completed_store))
       = ai_feedback completed_store"
  by (simp add: completed_store_eq run_defs)

text \<open>
  C2 (as amended). Every invocation of the endpoint for an existing pitch writes status
  processing first, whatever the status was before (pending, failed, processing or
  completed), and leaves the pitch completed or failed; the other pitches are not
  touched. So pending goes to processing and then to completed or failed, and a retry
  takes failed to processing again, but completed is not terminal: the endpoint does not
  look at the current status, and in a store the application can reach an invocation for
  a completed pitch leaves it failed, its feedback row being there already.
\<close>

theorem C2_status_cycle:
  assumes "req_method req \<noteq> ''OPTIONS''" and "req_body req = Json (Some pid)" and "pid \<noteq> []"
    and "select_single pid s = Some p"
  shows "handler e req s = generate_for e pid (mark_processing e pid s)
    \<and> map_option p_ai_processing_status (select_single pid (mark_processing e pid s))
        = Some processing
    \<and> (map_option p_ai_processing_status (select_single pid (snd (handler e req s)))
          = Some completed
       \<or> map_option p_ai_processing_status (select_single pid (snd (handler e req s)))
          = Some failed)
    \<and> filter (\<lambda>q. p_id q \<noteq> pid) (pitches (snd (handler e req s)))
        = filter (\<lambda>q. p_id q \<noteq> pid) (pitches s)
    \<and> (reachable s \<and> p_ai_processing_status p = completed \<longrightarrow>
         map_option p_ai_processing_status (select_single pid (snd (handler e req s)))
           = Some failed)"
proof -
  let ?s1 = "mark_processing e pid s"
  define ends where "ends s' \<longleftrightarrow>
     (map_option p_ai_processing_status (select_single pid s') = Some completed
      \<or> map_option p_ai_processing_status (select_single pid s') = Some failed)
     \<and> filter (\<lambda>q. p_id q \<noteq> pid) (pitches s') = filter (\<lambda>q. p_id q \<noteq> pid) (pitches s)" for s'
  note found = found_after_mark [OF assms(4), of e]
  note h = handler_found [OF assms(1-3), of e s]
  have others1: "filter (\<lambda>q. p_id q \<noteq> pid) (pitches ?s1) = filter (\<lambda>q. p_id q \<noteq> pid) (pitches s)"
    unfolding mark_processing_def by (rule others_update_pitch) simp
  have catch: "ends (snd (catch_block e (Some pid) m ?s1))" for m
  proof -
    have "filter (\<lambda>q. p_id q \<noteq> pid) (pitches (snd (catch_block e (Some pid) m ?s1)))
        = filter (\<lambda>q. p_id q \<noteq> pid) (pitches ?s1)"
      using assms(3) by (simp add: catch_block_def others_update_pitch)
    with others1 catch_block_found [OF assms(4,3), of e m] show ?thesis
      by (simp add: ends_def)
  qed
  have sf: "ends (snd (store_feedback e pid fb ?s1))" for fb
  proof (cases "insert_feedback \<lparr>f_pitch_id = pid, f_feedback = fb\<rparr> ?s1")
    case (Inl err)
    then show ?thesis using catch by (simp add: store_feedback_def)
  next
    case (Inr s')
    let ?done = "\<lambda>p. p\<lparr>p_ai_processing_status := completed,
                     p_ai_processing_completed_at := Some (completed_now e),
                     p_ai_processing_error := None\<rparr>"
    from insert_feedback_Inr [OF Inr]
    have s': "s' = ?s1\<lparr>ai_feedback := ai_feedback ?s1 @ [\<lparr>f_pitch_id = pid, f_feedback = fb\<rparr>]\<rparr>"
      by simp
    have sel: "select_single pid s' = select_single pid ?s1"
      by (simp add: s')
    have "select_single pid (update_pitch pid ?done s')
          = Some (?done (p\<lparr>p_ai_processing_status := processing,
                p_ai_processing_started_at := Some (started_now e)\<rparr>))"
      by (rule select_single_update_same) (simp_all add: sel found)
    moreover have "filter (\<lambda>q. p_id q \<noteq> pid) (pitches (update_pitch pid ?done s'))
       = filter (\<lambda>q. p_id q \<noteq> pid) (pitches s')"
      by (rule others_update_pitch) simp
    moreover have "pitches s' = pitches ?s1"
      by (simp add: s')
    ultimately show ?thesis
      using others1 by (simp add: store_feedback_def Inr ends_def)
  qed
  have "ends (snd (generate_for e pid ?s1))"
    by (simp add: generate_for_def found catch sf split: openai_outcome.splits)
  then have cycle: "handler e req s = generate_for e pid ?s1
    \<and> map_option p_ai_processing_status (select_single pid ?s1) = Some processing
    \<and> (map_option p_ai_processing_status (select_single pid (snd (handler e req s)))
          = Some completed
       \<or> map_option p_ai_processing_status (select_single pid (snd (handler e req s)))
          = Some failed)
    \<and> filter (\<lambda>q. p_id q \<noteq> pid) (pitches (snd (handler e req s)))
        = filter (\<lambda>q. p_id q \<noteq> pid) (pitches s)"
    by (simp add: h found ends_def)
  have "map_option p_ai_processing_status (select_single pid (snd (handler e req s)))
           = Some failed"
    if r: "reachable s" and c: "p_ai_processing_status p = completed"
  proof -
    from select_single_mem [OF assms(4)] have "p \<in> set (pitches s)" "p_id p = pid"
      by simp_all
    with reachable_feedback_invariant [OF r] c
    have "pid \<in> set (map f_pitch_id (ai_feedback s))"
      by (auto simp: feedback_invariant_def)
    from generate_for_with_feedback [OF assms(4) this, of e] obtain m
      where "generate_for e pid ?s1 = catch_block e (Some pid) m ?s1"
      by blast
    with catch_block_found [OF assms(4,3), of e m] show ?thesis
      by (simp add: h)
  qed
  with cycle show ?thesis
    by blast
qed


theorem C2_witness:
  "handler demo_env (post (Some ''p1'')) demo_store
     = generate_for demo_env ''p1'' (mark_processing demo_env ''p1'' demo_store)
   \<and> map p_ai_processing_status (pitches demo_store) = [pending]
   \<and> map_option p_ai_processing_status
        (select_single ''p1'' (mark_processing demo_env ''p1'' demo_store)) = Some processing
   \<and> (map_option p_ai_processing_status
         (select_single ''p1'' (snd (handler demo_env (post (Some ''p1'')) demo_store)))
          = Some completed
       \<or> map_option p_ai_processing_status
         (select_single ''p1'' (snd (handler demo_env (post (Some ''p1'')) demo_store)))
          = Some failed)
   \<and> reachable completed_store
   \<and> map_option p_ai_processing_status (select_single ''p1'' completed_store) = Some completed
   \<and> map_option p_ai_processing_status
        (select_single ''p1''
           (snd (handler (keyed_env (Parsed mockFeedback)) (post (Some ''p1'')) completed_store)))
       = Some failed"
proof -
  have sel: "select_single ''p1'' demo_store = Some demo_pitch"
    by (simp add: select_single_def demo_store_def demo_pitch_def)
  have m: "req_method (post (Some ''p1'')) \<noteq> ''OPTIONS''"
          "req_body (post (Some ''p1'')) = Json (Some ''p1'')" "''p1'' \<noteq> []"
    by (simp_all add: post_def)
  have pending: "map p_ai_processing_status (pitches demo_store) = [pending]"
    by (simp add: demo_store_def demo_pitch_def)
  have sel': "select_single ''p1'' completed_store
     = Some (demo_pitch\<lparr>p_ai_processing_status := completed,
                  p_ai_processing_started_at := Some 2000,
                  p_ai_processing_completed_at := Some 3000\<rparr>)"
    by (simp add: completed_store_eq select_single_def demo_pitch_def)
  have before: "map_option p_ai_processing_status (select_single ''p1'' completed_store)
      = Some completed"
    by (simp add: sel')
  have "p_ai_processing_status
          (demo_pitch\<lparr>p_ai_processing_status := completed,
                  p_ai_processing_started_at := Some 2000,
                  p_ai_processing_completed_at := Some 3000\<rparr>) = completed"
    by simp
  with C2_status_cycle [OF m sel', of "keyed_env (Parsed mockFeedback)"] reachable_completed_store
  have again: "map_option p_ai_processing_status
        (select_single ''p1''
           (snd (handler (keyed_env (Parsed mockFeedback)) (post (Some ''p1'')) completed_store)))
       = Some failed"
    by blast
  from C2_status_cycle [OF m sel, of demo_env]
  have first: "handler demo_env (post (Some ''p1'')) demo_store
       = generate_for demo_env ''p1'' (mark_processing demo_env ''p1'' demo_store)
     \<and> map_option p_ai_processing_status
          (select_single ''p1'' (mark_processing demo_env ''p1'' demo_store)) = Some processing
     \<and> (map_option p_ai_processing_status
           (select_single ''p1'' (snd (handler demo_env (post (Some ''p1'')) demo_store)))
            = Some completed
         \<or> map_option p_ai_processing_status
           (select_single ''p1'' (snd (handler demo_env (post (Some ''p1'')) demo_store)))
            = Some failed)"
    by blast
  from first pending reachable_completed_store before again show ?thesis
    by blast
qed

text \<open>
  The claim as stated fails on a completed pitch: a further invocation (the detail view
  offers its button whenever it holds no feedback for the pitch, and the endpoint is
  open to any caller) moves the pitch to processing and, the insert of a second feedback
  row being refused, to failed.
\<close>

theorem C2_counterexample:
  "reachable completed_store
   \<and> map p_ai_processing_status (pitches completed_store) = [completed]
   \<and> map p_ai_processing_status (pitches (mark_processing demo_env ''p1'' completed_store))
       = [processing]
   \<and> map p_ai_processing_status
        (pitches (snd (handler demo_env (post (Some ''p1'')) completed_store))) = [failed]"
  using reachable_completed_store
  by (simp add: completed_store_eq run_defs)

text \<open>
  C1. In every store the application can reach, a pitch id occurs in at most one row of
  \<open>ai_feedback\<close>, and every pitch whose processing status is completed has exactly one
  feedback row: the endpoint writes completed only after its insert went through, and
  the insert is refused for a pitch id that already has a row.
\<close>

theorem C1_one_feedback_per_pitch:
  assumes "reachable s"
  shows "(\<forall>pid. length (filter (\<lambda>r. f_pitch_id r = pid) (ai_feedback s)) \<le> 1)
    \<and> (\<forall>p \<in> set (pitches s). p_ai_processing_status p = completed \<longrightarrow>
          length (filter (\<lambda>r. f_pitch_id r = p_id p) (ai_feedback s)) = 1)"
proof -
  from reachable_feedback_invariant [OF assms]
  have d: "distinct (map f_pitch_id (ai_feedback s))"
    and c: "\<And>p. p \<in> set (pitches s) \<Longrightarrow> p_ai_processing_status p = completed
              \<Longrightarrow> p_id p \<in> set (map f_pitch_id (ai_feedback s))"
    by (auto simp: feedback_invariant_def)
  show ?thesis
    using count_le_one [OF d] count_eq_one [OF d c] by blast
qed

theorem C1_witness:
  "reachable completed_store
   \<and> map p_ai_processing_status (pitches completed_store) = [completed]
   \<and> (\<forall>pid. length (filter (\<lambda>r. f_pitch_id r = pid) (ai_feedback completed_store)) \<le> 1)
   \<and> length (filter (\<lambda>r. f_pitch_id r = ''p1'') (ai_feedback completed_store)) = 1"
proof -
  have "map p_ai_processing_status (pitches completed_store) = [completed]"
    and "\<forall>p \<in> set (pitches completed_store). p_id p = ''p1'' \<and> p_ai_processing_status p = completed"
    by (simp_all add: completed_store_eq demo_pitch_def)
  with reachable_completed_store C1_one_feedback_per_pitch [OF reachable_completed_store]
  show ?thesis
    by (auto simp: completed_store_eq)
qed


text \<open>
  C7. In every store the application can reach, a pair of pitch and voter occurs in at
  most one vote row, and no vote is by the owner of the pitch it is on; an insert that
  the database accepts is a row of the caller's own, on a pitch that is not the
  caller's, for a pair that has no row yet.
\<close>

theorem C7_one_vote_per_pair_never_own:
  assumes "reachable s"
  shows "(\<forall>pid uid. length (filter (\<lambda>v. v_pitch_id v = pid \<and> v_user_id v = uid) (votes s)) \<le> 1)
    \<and> (\<forall>v \<in> set (votes s). \<forall>p \<in> set (pitches s). p_id p = v_pitch_id v \<longrightarrow> p_user_id p \<noteq> v_user_id v)
    \<and> (\<forall>auth_uid r s'. insert_vote auth_uid r s = Inr s' \<longrightarrow>
          v_user_id r = auth_uid
          \<and> (\<forall>p \<in> set (pitches s). p_id p = v_pitch_id r \<longrightarrow> p_user_id p \<noteq> v_user_id r)
          \<and> (\<forall>v \<in> set (votes s). vote_key v \<noteq> vote_key r))"
proof -
  from reachable_votes_invariant [OF assms]
  have d: "distinct (map vote_key (votes s))"
    and o: "\<forall>v \<in> set (votes s). \<forall>p \<in> set (pitches s). p_id p = v_pitch_id v \<longrightarrow> p_user_id p \<noteq> v_user_id v"
    by (simp_all add: votes_invariant_def)
  have "length (filter (\<lambda>v. v_pitch_id v = pid \<and> v_user_id v = uid) (votes s)) \<le> 1" for pid uid
    using count_le_one [OF d, of "(pid, uid)"] by (simp add: vote_key_def)
  moreover have "v_user_id r = auth_uid
          \<and> (\<forall>p \<in> set (pitches s). p_id p = v_pitch_id r \<longrightarrow> p_user_id p \<noteq> v_user_id r)
          \<and> (\<forall>v \<in> set (votes s). vote_key v \<noteq> vote_key r)"
    if "insert_vote auth_uid r s = Inr s'" for auth_uid r s'
  proof -
    from insert_vote_Inr [OF that]
    have u: "v_user_id r = auth_uid"
      and own: "\<forall>p \<in> set (pitches s). p_id p = v_pitch_id r \<longrightarrow> p_user_id p \<noteq> auth_uid"
      and fresh: "vote_key r \<notin> set (map vote_key (votes s))"
      by simp_all
    from fresh have "\<forall>v \<in> set (votes s). vote_key v \<noteq> vote_key r"
      by (metis image_eqI set_map)
    with u own show ?thesis by simp
  qed
  ultimately show ?thesis
    using o by blast
qed


theorem C7_witness:
  "reachable voted_store
   \<and> votes voted_store = [\<lparr>v_pitch_id = ''p1'', v_user_id = ''bob'', v_vote_type = interesting\<rparr>]
   \<and> length (filter (\<lambda>v. v_pitch_id v = ''p1'' \<and> v_user_id v = ''bob'') (votes voted_store)) \<le> 1
   \<and> map (\<lambda>p. (p_id p, p_user_id p)) (pitches voted_store) = [(''p1'', ''alice'')]
   \<and> insert_vote ''alice'' \<lparr>v_pitch_id = ''p1'', v_user_id = ''alice'', v_vote_type = interesting\<rparr>
        voted_store = Inl policy_violation
   \<and> insert_vote ''bob'' \<lparr>v_pitch_id = ''p1'', v_user_id = ''bob'', v_vote_type = needs_work\<rparr>
        voted_store = Inl unique_violation"
proof -
  have v: "votes voted_store = [\<lparr>v_pitch_id = ''p1'', v_user_id = ''bob'', v_vote_type = interesting\<rparr>]"
    by (simp add: voted_store_eq)
  have "insert_vote ''alice'' \<lparr>v_pitch_id = ''p1'', v_user_id = ''alice'', v_vote_type = interesting\<rparr>
        voted_store = Inl policy_violation"
    and "insert_vote ''bob'' \<lparr>v_pitch_id = ''p1'', v_user_id = ''bob'', v_vote_type = needs_work\<rparr>
        voted_store = Inl unique_violation"
    by (simp_all add: voted_store_eq insert_vote_def demo_store_def demo_pitch_def vote_key_def)
  moreover have "map (\<lambda>p. (p_id p, p_user_id p)) (pitches voted_store) = [(''p1'', ''alice'')]"
    by (simp add: voted_store_eq demo_store_def demo_pitch_def)
  ultimately show ?thesis
    using v reachable_voted_store C7_one_vote_per_pair_never_own [OF reachable_voted_store]
    by (simp add: v)
qed


text \<open>
  C8 (as amended). For a published pitch and a voter who is not its owner, in a store
  the application can reach: the detail view's vote, on a view that is up to date,
  appends a vote row when the voter has none on the pitch and otherwise changes the type
  of the existing row in place; the feed's vote appends a row when the voter has none
  and otherwise changes nothing, the database refusing the insert. After either, the
  pair of pitch and voter has exactly one row.
\<close>

theorem C8_vote_inserted_or_updated:
  assumes "reachable s" and "loadPitchDetail uid pid s = Some pd"
    and "p_status (d_pitch pd) = published" and "p_user_id (d_pitch pd) \<noteq> uid"
    and "currentIndex fs < length (feed_pitches fs)" and "feed_pitches fs ! currentIndex fs = pid"
    and "\<not> feed_voting fs"
  shows "(filter (\<lambda>v. vote_key v = (pid, uid)) (votes s) = [] \<longrightarrow>
            votes (PitchDetailView_handleVote (Some uid) pid (Some pd) False vt s)
              = votes s @ [\<lparr>v_pitch_id = pid, v_user_id = uid, v_vote_type = vt\<rparr>]
          \<and> votes (snd (DiscoverFeed_handleVote (Some uid) fs vt s))
              = votes s @ [\<lparr>v_pitch_id = pid, v_user_id = uid, v_vote_type = vt\<rparr>])
    \<and> (filter (\<lambda>v. vote_key v = (pid, uid)) (votes s) \<noteq> [] \<longrightarrow>
            votes (PitchDetailView_handleVote (Some uid) pid (Some pd) False vt s)
              = map (\<lambda>v. if vote_key v = (pid, uid) then v\<lparr>v_vote_type := vt\<rparr> else v) (votes s)
          \<and> votes (snd (DiscoverFeed_handleVote (Some uid) fs vt s)) = votes s)
    \<and> length (filter (\<lambda>v. vote_key v = (pid, uid))
                (votes (PitchDetailView_handleVote (Some uid) pid (Some pd) False vt s))) = 1
    \<and> length (filter (\<lambda>v. vote_key v = (pid, uid))
                (votes (snd (DiscoverFeed_handleVote (Some uid) fs vt s)))) = 1"
proof -
  let ?new = "\<lparr>v_pitch_id = pid, v_user_id = uid, v_vote_type = vt\<rparr>"
  let ?mine = "\<lambda>v. vote_key v = (pid, uid)"
  let ?upd = "\<lambda>v. if vote_key v = (pid, uid) then v\<lparr>v_vote_type := vt\<rparr> else v"
  have mine: "(\<lambda>v. v_pitch_id v = pid \<and> v_user_id v = uid) = ?mine"
    by (auto simp: vote_key_def)
  from reachable_votes_invariant [OF assms(1)]
  have d: "distinct (map vote_key (votes s))"
    by (simp add: votes_invariant_def)
  have uv: "d_user_vote pd = None \<longleftrightarrow> filter ?mine (votes s) = []"
    using loadPitchDetail_Some [OF assms(2)] maybeSingle_distinct [OF d, of "(pid, uid)"]
    by (simp add: mine)
  have c: "(uid = v_user_id v \<and> v_pitch_id v = pid \<and> v_user_id v = uid) = (vote_key v = (pid, uid))"
    for v :: vote_row
    unfolding vote_key_def by blast
  have upd_eq: "votes (update_vote uid pid uid vt s) = map ?upd (votes s)"
    unfolding update_vote_def c by simp
  have one: "length (filter ?mine (votes s)) = 1" if "filter ?mine (votes s) \<noteq> []"
    using count_le_one [OF d, of "(pid, uid)"] that
    by (cases "filter ?mine (votes s)") auto
  have len_upd: "length (filter ?mine (map ?upd xs)) = length (filter ?mine xs)" for xs
    by (induction xs) (auto simp: vote_key_def)
  show ?thesis
  proof (cases "filter ?mine (votes s) = []")
    case True
    note ins = first_vote_accepted [OF assms(2,4) True, of vt]
    have 1: "votes (PitchDetailView_handleVote (Some uid) pid (Some pd) False vt s) = votes s @ [?new]"
      using assms(4) uv True by (simp add: PitchDetailView_handleVote_def ins)
    have 2: "votes (snd (DiscoverFeed_handleVote (Some uid) fs vt s)) = votes s @ [?new]"
      using assms(5,6,7) by (simp add: DiscoverFeed_handleVote_def ins)
    from True show ?thesis
      by (simp add: 1 2 vote_key_def)
  next
    case False
    from second_vote_refused [OF False, of vt] obtain err
      where ref: "insert_vote uid ?new s = Inl err" by blast
    have 1: "votes (PitchDetailView_handleVote (Some uid) pid (Some pd) False vt s) = map ?upd (votes s)"
      using assms(4) uv False by (simp add: PitchDetailView_handleVote_def upd_eq)
    have 2: "votes (snd (DiscoverFeed_handleVote (Some uid) fs vt s)) = votes s"
      using assms(5,6,7) by (simp add: DiscoverFeed_handleVote_def ref)
    have l1: "length (filter ?mine
                (votes (PitchDetailView_handleVote (Some uid) pid (Some pd) False vt s))) = 1"
      unfolding 1 len_upd by (rule one [OF False])
    have l2: "length (filter ?mine (votes (snd (DiscoverFeed_handleVote (Some uid) fs vt s)))) = 1"
      unfolding 2 by (rule one [OF False])
    from False 1 2 l1 l2 show ?thesis
      by blast
  qed
qed

theorem C8_witness:
  "votes (PitchDetailView_handleVote (Some ''bob'') ''p1'' (Some demo_detail) False interesting demo_store)
     = [\<lparr>v_pitch_id = ''p1'', v_user_id = ''bob'', v_vote_type = interesting\<rparr>]
   \<and> votes (snd (DiscoverFeed_handleVote (Some ''bob'') demo_feed interesting demo_store))
     = [\<lparr>v_pitch_id = ''p1'', v_user_id = ''bob'', v_vote_type = interesting\<rparr>]
   \<and> votes (PitchDetailView_handleVote (Some ''bob'') ''p1'' (Some voted_detail) False needs_work voted_store)
     = [\<lparr>v_pitch_id = ''p1'', v_user_id = ''bob'', v_vote_type = needs_work\<rparr>]
   \<and> votes (snd (DiscoverFeed_handleVote (Some ''bob'') demo_feed needs_work voted_store))
     = votes voted_store"
proof -
  have f: "currentIndex demo_feed < length (feed_pitches demo_feed)"
      "feed_pitches demo_feed ! currentIndex demo_feed = ''p1''" "\<not> feed_voting demo_feed"
    by (simp_all add: demo_feed_def)
  have p: "p_status (d_pitch demo_detail) = published" "p_user_id (d_pitch demo_detail) \<noteq> ''bob''"
      "p_status (d_pitch voted_detail) = published" "p_user_id (d_pitch voted_detail) \<noteq> ''bob''"
    by (simp_all add: demo_detail_def voted_detail_def demo_pitch_def)
  have none: "filter (\<lambda>v. vote_key v = (''p1'', ''bob'')) (votes demo_store) = []"
    by (simp add: demo_store_def)
  have some: "filter (\<lambda>v. vote_key v = (''p1'', ''bob'')) (votes voted_store) \<noteq> []"
    by (simp add: voted_store_eq vote_key_def)
  have v: "votes demo_store = []"
    by (simp add: demo_store_def)
  have v': "map (\<lambda>v. if vote_key v = (''p1'', ''bob'') then v\<lparr>v_vote_type := needs_work\<rparr> else v)
              (votes voted_store)
            = [\<lparr>v_pitch_id = ''p1'', v_user_id = ''bob'', v_vote_type = needs_work\<rparr>]"
    by (simp add: voted_store_eq vote_key_def)
  from C8_vote_inserted_or_updated
         [OF reachable_demo_store demo_detail_loaded p(1,2) f, of interesting]
       C8_vote_inserted_or_updated
         [OF reachable_voted_store voted_detail_loaded p(3,4) f, of needs_work]
       none some
  show ?thesis
    by (simp add: v v')
qed

text \<open>
  The claim as stated fails in the feed, which stays mounted under the detail view: bob
  votes interesting from the detail view of a pitch the feed still shows, then votes
  needs_work on it in the feed; the vote stays interesting.
\<close>

theorem C8_counterexample:
  "reachable voted_store
   \<and> votes voted_store = [\<lparr>v_pitch_id = ''p1'', v_user_id = ''bob'', v_vote_type = interesting\<rparr>]
   \<and> map p_status (pitches voted_store) = [published]
   \<and> map p_user_id (pitches voted_store) = [''alice'']
   \<and> feed_pitches demo_feed ! currentIndex demo_feed = ''p1''
   \<and> votes (snd (DiscoverFeed_handleVote (Some ''bob'') demo_feed needs_work voted_store))
       = [\<lparr>v_pitch_id = ''p1'', v_user_id = ''bob'', v_vote_type = interesting\<rparr>]"
  using reachable_voted_store
  by (simp add: voted_store_eq DiscoverFeed_handleVote_def insert_vote_def demo_store_def
       demo_pitch_def vote_key_def demo_feed_def)


text \<open>
  C6. When the elevator pitch has fewer than 250 or more than 500 words (as the form
  itself counts and shows them), the validity check of step 5 is false, and a click on
  the button at the bottom of the form, at any step, does not call \<open>handleSubmit\<close>: the
  button is disabled on step 5, and on the earlier steps it only moves on.
\<close>

theorem C6_word_count_gate:
  assumes "getWordCount st < 250 \<or> getWordCount st > 500"
  shows "(step st = 5 \<longrightarrow> \<not> isStepValid st \<and> click_next st = (st, []))
    \<and> (\<forall>fd. HandleSubmit fd \<notin> set (snd (click_next st)))"
proof -
  let ?n = "length (split_ws (trim (elevator_pitch (formData st))))"
  have "getWordCount st \<le> ?n"
    by (simp add: getWordCount_def)
  moreover have "?n < 250" if "getWordCount st < 250"
    using that wordCount_cases [of "elevator_pitch (formData st)"]
    by (simp add: getWordCount_def split: if_splits)
  ultimately have out: "\<not> (?n \<ge> 250 \<and> ?n \<le> 500)"
    using assms by linarith
  then have invalid: "step st = 5 \<Longrightarrow> \<not> isStepValid st"
    by (simp add: isStepValid_def Let_def)
  have "HandleSubmit fd \<notin> set (snd (click_next st))" for fd
  proof (cases "step st < 5")
    case True
    then show ?thesis
      by (simp add: click_next_def handleNext_def totalSteps_def)
  next
    case False
    then have "\<not> isStepValid st"
      using invalid by (cases "step st = 5") (simp_all add: isStepValid_def)
    then show ?thesis
      by (simp add: click_next_def)
  qed
  moreover have "click_next st = (st, [])" if "step st = 5"
    using invalid [OF that] by (simp add: click_next_def)
  ultimately show ?thesis
    using invalid by blast
qed

theorem C6_witness:
  "getWordCount demo_form_state = 1 \<and> step demo_form_state = 5 \<and> \<not> isStepValid demo_form_state
   \<and> click_next demo_form_state = (demo_form_state, [])"
proof -
  have "getWordCount demo_form_state < 250 \<or> getWordCount demo_form_state > 500"
    by (simp add: demo_word_count)
  from C6_word_count_gate [OF this] have "\<not> isStepValid demo_form_state"
    by (simp add: demo_form_state_def)
  then show ?thesis
    by (simp add: demo_word_count click_next_def) (simp add: demo_form_state_def)
qed


text \<open>
  C10. The share of positive votes is computed over a denominator that is never zero;
  for an entry with no votes at all the denominator is the fallback 1 and the share is
  the number 0. For every entry the share is a finite integer, never not-a-number, which
  is what zero divided by a zero total would give.
\<close>

theorem C10_percent_positive_zero_votes:
  "percent_denominator vc \<noteq> 0
   \<and> (\<exists>k. percent_positive vc = Fraction k 1)
   \<and> (vc_interesting vc + vc_needs_work vc = 0 \<longrightarrow>
        percent_denominator vc = 1 \<and> percent_positive vc = Fraction 0 1
        \<and> js_divide (vc_interesting vc) (vc_interesting vc + vc_needs_work vc) = NaN)"
proof -
  have den: "percent_denominator vc \<noteq> 0"
    by (simp add: percent_denominator_def or_one_def)
  obtain n d where q: "to_double (vc_interesting vc) (percent_denominator vc) = (n, d)"
    by (cases "to_double (vc_interesting vc) (percent_denominator vc)")
  obtain n' d' where p: "to_double (n * 100) d = (n', d')"
    by (cases "to_double (n * 100) d")
  from den q p have "percent_positive vc = Fraction ((2 * n' + d') div (2 * d')) 1"
    by (simp add: percent_positive_def js_divide_def)
  then have finite: "\<exists>k. percent_positive vc = Fraction k 1"
    by blast
  have "percent_denominator vc = 1 \<and> percent_positive vc = Fraction 0 1
        \<and> js_divide (vc_interesting vc) (vc_interesting vc + vc_needs_work vc) = NaN"
    if "vc_interesting vc + vc_needs_work vc = 0"
    using that
    by (simp add: percent_denominator_def or_one_def percent_positive_def js_divide_def
          to_double_def)
  with den finite show ?thesis
    by blast
qed

theorem C10_witness:
  "percent_denominator \<lparr>vc_interesting = 0, vc_needs_work = 0\<rparr> = 1
   \<and> percent_positive \<lparr>vc_interesting = 0, vc_needs_work = 0\<rparr> = Fraction 0 1
   \<and> js_divide 0 0 = NaN
   \<and> percent_positive \<lparr>vc_interesting = 23, vc_needs_work = 17\<rparr> = Fraction 57 1"
  using C10_percent_positive_zero_votes [of "\<lparr>vc_interesting = 0, vc_needs_work = 0\<rparr>"]
        share_of_23_and_17
  by simp

text \<open>
  C5. Whatever the order in which the database answers the query, the leaderboard shows
  published pitches of the selected window only, each with the interesting and
  needs_work votes it has in the store, in non-increasing order of interesting votes,
  with ranks 1, 2, 3, ... in list order; it shows all of them when they are at most 20
  and 20 of them otherwise, and no pitch left out has more interesting votes than one
  shown.
\<close>

theorem C5_leaderboard:
  assumes "answers_query clock f s pitchData"
  shows "length (loadLeaderboard s pitchData)
      = min 20 (length (filter (published_in_window clock f) (pitches s)))
    \<and> map lb_rank (loadLeaderboard s pitchData) = [1 ..< 1 + length (loadLeaderboard s pitchData)]
    \<and> sorted_wrt (\<lambda>a b. votes_for s interesting (lb_id b) \<le> votes_for s interesting (lb_id a))
         (loadLeaderboard s pitchData)
    \<and> (\<forall>e \<in> set (loadLeaderboard s pitchData).
          vc_interesting (lb_vote_counts e) = votes_for s interesting (lb_id e)
          \<and> vc_needs_work (lb_vote_counts e) = votes_for s needs_work (lb_id e))
    \<and> (\<exists>rest.
          mset (map lb_id (loadLeaderboard s pitchData)) + mset rest
            = mset (map p_id (filter (published_in_window clock f) (pitches s)))
          \<and> (\<forall>e \<in> set (loadLeaderboard s pitchData). \<forall>pid \<in> set rest.
                votes_for s interesting pid \<le> votes_for s interesting (lb_id e)))"
proof -
  let ?passing = "filter (published_in_window clock f) (pitches s)"
  let ?board = "with_ranks 0 (sort_by by_interesting (map (with_data s) pitchData))"
  let ?le = "\<lambda>a b. votes_for s interesting (lb_id b) \<le> votes_for s interesting (lb_id a)"
  have def: "loadLeaderboard s pitchData = take 20 ?board"
    by (simp add: loadLeaderboard_def Let_def)
  have "filter (passes_filter clock f) (pitches s) = ?passing"
    by (rule filter_cong) (simp_all add: passes_filter_window)
  with assms have answer: "mset pitchData = mset ?passing"
    by (simp only: answers_query_def)
  then have "size (mset pitchData) = size (mset ?passing)"
    by (rule arg_cong)
  then have len: "length ?board = length ?passing"
    by (simp only: length_with_ranks length_sort_by length_map size_mset)
  have len': "length (take 20 ?board) = min 20 (length ?passing)"
    by (simp only: length_take len min.commute)
  have "map lb_rank (take 20 ?board) = take 20 (map lb_rank ?board)"
    by (rule take_map [symmetric])
  also have "\<dots> = take 20 [0 + 1 ..< 0 + 1 + length ?board]"
    by (simp only: ranks_with_ranks length_with_ranks)
  also have "\<dots> = [0 + 1 ..< 0 + 1 + min 20 (length ?board)]"
    by (rule take_upt_min)
  also have "\<dots> = [1 ..< 1 + length (take 20 ?board)]"
    by (simp only: len' len add_0)
  finally have ranks: "map lb_rank (take 20 ?board) = [1 ..< 1 + length (take 20 ?board)]" .
  have counts: "lb_vote_counts e = count_votes (lb_id e) s" if "e \<in> set ?board" for e
    using board_entry [OF that] by simp
  have key: "votes_of e = votes_for s interesting (lb_id e)" if "e \<in> set ?board" for e
    using counts [OF that] count_votes_for [of "lb_id e" s] by (simp add: votes_of_def)
  have "sorted_wrt (\<lambda>a b. votes_of a \<ge> votes_of b) ?board"
    by (simp only: sorted_with_ranks sorted_sort_by)
  then have sorted: "sorted_wrt ?le ?board"
    by (rule sorted_wrt_mono_rel [rotated]) (simp add: key)
  then have "sorted_wrt ?le (take 20 ?board @ drop 20 ?board)"
    by simp
  then have top: "sorted_wrt ?le (take 20 ?board)"
    and cut: "\<forall>a \<in> set (take 20 ?board). \<forall>b \<in> set (drop 20 ?board). ?le a b"
    unfolding sorted_wrt_append by blast+
  have shown: "vc_interesting (lb_vote_counts e) = votes_for s interesting (lb_id e)
          \<and> vc_needs_work (lb_vote_counts e) = votes_for s needs_work (lb_id e)"
    if "e \<in> set (take 20 ?board)" for e
  proof -
    from that have "e \<in> set ?board" by (rule in_set_takeD)
    from counts [OF this] count_votes_for [of "lb_id e" s] show ?thesis by simp
  qed
  have ids: "map lb_id (map (with_data s) pitchData) = map p_id pitchData"
    by (simp add: with_data_def)
  have "mset (map lb_id ?board) = mset (map lb_id (map (with_data s) pitchData))"
    by (simp only: ids_with_ranks mset_map mset_sort_by)
  also have "\<dots> = mset (map p_id pitchData)"
    by (simp only: ids)
  also have "\<dots> = mset (map p_id ?passing)"
    by (simp only: mset_map answer)
  finally have perm: "mset (map lb_id ?board) = mset (map p_id ?passing)" .
  have "mset (map lb_id (take 20 ?board)) + mset (map lb_id (drop 20 ?board))
      = mset (map lb_id (take 20 ?board @ drop 20 ?board))"
    by (simp only: map_append mset_append)
  also have "\<dots> = mset (map p_id ?passing)"
    by (simp only: append_take_drop_id perm)
  finally have split: "mset (map lb_id (take 20 ?board)) + mset (map lb_id (drop 20 ?board))
      = mset (map p_id ?passing)" .
  have below: "\<forall>e \<in> set (take 20 ?board). \<forall>pid \<in> set (map lb_id (drop 20 ?board)).
        votes_for s interesting pid \<le> votes_for s interesting (lb_id e)"
    using cut by auto
  from split below have rest: "\<exists>rest.
          mset (map lb_id (take 20 ?board)) + mset rest = mset (map p_id ?passing)
          \<and> (\<forall>e \<in> set (take 20 ?board). \<forall>pid \<in> set rest.
                votes_for s interesting pid \<le> votes_for s interesting (lb_id e))"
    by blast
  from len' ranks top shown rest show ?thesis
    unfolding def by blast
qed

theorem C5_witness:
  "map p_id (filter (published_in_window board_clock filter_week) (pitches board_store))
     = [''02'', ''03'', ''04'', ''05'', ''06'', ''07'', ''08'', ''09'', ''10'', ''11'', ''12'',
        ''13'', ''14'', ''15'', ''16'', ''17'', ''18'', ''19'', ''20'', ''21'', ''22'']
   \<and> length (loadLeaderboard board_store board_rows) = 20
   \<and> map (\<lambda>e. (lb_id e, lb_rank e, vc_interesting (lb_vote_counts e)))
        (loadLeaderboard board_store board_rows)
     = [(''22'', 1, 2), (''10'', 2, 1), (''21'', 3, 0), (''20'', 4, 0), (''19'', 5, 0),
        (''18'', 6, 0), (''17'', 7, 0), (''16'', 8, 0), (''15'', 9, 0), (''14'', 10, 0),
        (''13'', 11, 0), (''12'', 12, 0), (''11'', 13, 0), (''09'', 14, 0), (''08'', 15, 0),
        (''07'', 16, 0), (''06'', 17, 0), (''05'', 18, 0), (''04'', 19, 0), (''03'', 20, 0)]"
proof -
  have "length (loadLeaderboard board_store board_rows)
      = min 20 (length (filter (published_in_window board_clock filter_week) (pitches board_store)))"
    using C5_leaderboard [OF board_rows_answer] by (rule conjunct1)
  moreover have "length (filter (published_in_window board_clock filter_week) (pitches board_store))
      = 21"
    using arg_cong [OF board_passing, of length] by simp
  ultimately have "length (loadLeaderboard board_store board_rows) = 20"
    by simp
  with board_passing board_shown show ?thesis
    by blast
qed

end
